theory Spec2Isabelle
  imports Main "HOL-Library.Word"
begin

section \<open>JavaScript values and byte buffers\<close>

text \<open>
  A \<^verbatim>\<open>Uint8Array\<close> is read through its contents, a list of 8-bit words. A value of a
  nullable type (\<^verbatim>\<open>?Uint8Array\<close>, \<^verbatim>\<open>string|undefined\<close>) is \<open>Undefined\<close>, \<open>Null\<close> or an
  actual value. A source name that ends in an underscore (\<^verbatim>\<open>status_\<close>,
  \<^verbatim>\<open>normaliseInitData_\<close>) is written with a prime instead, as is a name that is taken
  (\<^verbatim>\<open>size\<close>, \<^verbatim>\<open>end\<close>).
\<close>

type_synonym byte = "8 word"
type_synonym bytes = "byte list"

datatype 'a nullable = Undefined | Null | Value 'a

text \<open>\<^verbatim>\<open>x == undefined\<close>: the loose comparison holds for \<^verbatim>\<open>undefined\<close> and \<^verbatim>\<open>null\<close> only.\<close>

definition eq_undefined :: "'a nullable \<Rightarrow> bool" where
  "eq_undefined x = (case x of Undefined \<Rightarrow> True | Null \<Rightarrow> True | Value _ \<Rightarrow> False)"

text \<open>\<^verbatim>\<open>!x\<close> for a nullable object: an object (even an empty array) is truthy.\<close>

definition not_object :: "'a nullable \<Rightarrow> bool" where
  "not_object x = (case x of Undefined \<Rightarrow> True | Null \<Rightarrow> True | Value _ \<Rightarrow> False)"

text \<open>Big-endian reading of a run of bytes as an unsigned number.\<close>

definition be :: "bytes \<Rightarrow> nat" where
  "be bs = foldl (\<lambda>acc b. acc * 256 + unat b) 0 bs"

text \<open>
  \<^verbatim>\<open>TypedArray.prototype.subarray(begin, end)\<close> for non-negative arguments: both are
  clamped to the length, and an empty view results when \<open>end \<le> begin\<close>.
\<close>

definition subarray :: "bytes \<Rightarrow> nat \<Rightarrow> nat \<Rightarrow> bytes" where
  "subarray a begin end' = drop begin (take end' a)"


section \<open>\<^verbatim>\<open>lib/polyfill/patchedmediakeys_ms.js\<close>: MediaKeyStatusMap\<close>

record MediaKeyStatusMap =
  size' :: nat
  status' :: "string nullable"

definition MediaKeyStatusMap_constructor :: MediaKeyStatusMap where
  "MediaKeyStatusMap_constructor = \<lparr>size' = 0, status' = Undefined\<rparr>"

definition setStatus :: "string nullable \<Rightarrow> MediaKeyStatusMap \<Rightarrow> MediaKeyStatusMap" where
  "setStatus status this =
     this\<lparr>size' := (if eq_undefined status then 0 else 1), status' := status\<rparr>"

definition getStatus :: "MediaKeyStatusMap \<Rightarrow> string nullable" where
  "getStatus this = status' this"

text \<open>The invariant of the map: \<open>size\<close> counts the one status, when there is one.\<close>

definition size_agrees :: "MediaKeyStatusMap \<Rightarrow> bool" where
  "size_agrees this = (size' this = (if eq_undefined (status' this) then 0 else 1))"


section \<open>\<^verbatim>\<open>lib/polyfill/patchedmediakeys_ms.js\<close>: normaliseInitData\<close>

record dataBoundary =
  start :: nat
  end' :: nat

text \<open>
  \<^verbatim>\<open>shaka.util.Pssh\<close> is not part of the sources at hand; of the object it constructs only
  the field \<open>dataBoundaries\<close> is read here. The constructor is a parameter of
  \<open>normaliseInitData'\<close> below.
\<close>

record Pssh =
  dataBoundaries :: "dataBoundary list"

text \<open>
  Modelled from the spec: \<^verbatim>\<open>shaka.util.BufferUtils.equal\<close>, which is not part of the
  sources at hand: byte-for-byte equality of two regions.
\<close>

fun equal :: "bytes \<Rightarrow> bytes \<Rightarrow> bool" where
  "equal [] [] = True"
| "equal (a # as) (b # bs) = (a = b \<and> equal as bs)"
| "equal _ _ = False"

text \<open>
  Modelled from the spec: \<^verbatim>\<open>shaka.util.Uint8ArrayUtils.concat\<close>, which is not part of the
  sources at hand: the regions joined in the order given.
\<close>

definition Uint8ArrayUtils_concat :: "bytes list \<Rightarrow> bytes" where
  "Uint8ArrayUtils_concat arrays = concat arrays"

text \<open>The first loop: one \<open>subarray\<close> view per boundary, end index \<open>dataBoundary.end + 1\<close>.\<close>

fun unfilteredInitDatas :: "bytes \<Rightarrow> dataBoundary list \<Rightarrow> bytes list" where
  "unfilteredInitDatas initData [] = []"
| "unfilteredInitDatas initData (dataBoundary # rest) =
     subarray initData (start dataBoundary) (end' dataBoundary + 1)
       # unfilteredInitDatas initData rest"

text \<open>
  The second loop, with the array \<open>dedupedInitDatas\<close> built so far as accumulator:
  an element is pushed unless \<^verbatim>\<open>some\<close> element already kept is \<open>equal\<close> to it.
\<close>

fun dedupedInitDatas :: "bytes list \<Rightarrow> bytes list \<Rightarrow> bytes list" where
  "dedupedInitDatas [] deduped = deduped"
| "dedupedInitDatas (initData # rest) deduped =
     (let found = list_ex (\<lambda>x. equal x initData) deduped
      in if \<not> found then dedupedInitDatas rest (deduped @ [initData])
         else dedupedInitDatas rest deduped)"

text \<open>
  The calls \<open>normaliseInitData'\<close> makes to its collaborators are recorded next to the
  value it returns, so that a path that makes none can be told apart.
\<close>

datatype call = New_Pssh bytes | Concat "bytes list"

definition normaliseInitData' ::
  "(bytes \<Rightarrow> Pssh) \<Rightarrow> bytes nullable \<Rightarrow> bytes nullable \<times> call list" where
  "normaliseInitData' new_Pssh initData =
     (if not_object initData then (initData, [])
      else case initData of
        Value data \<Rightarrow>
          (let pssh = new_Pssh data
           in if length (dataBoundaries pssh) \<le> 1 then (initData, [New_Pssh data])
              else
                (let deduped =
                       dedupedInitDatas (unfilteredInitDatas data (dataBoundaries pssh)) []
                 in (Value (Uint8ArrayUtils_concat deduped),
                     [New_Pssh data, Concat deduped])))
      | _ \<Rightarrow> (initData, []))"

text \<open>
  Modelled from the spec: the PSSH boundary scanner behind \<^verbatim>\<open>new shaka.util.Pssh\<close>,
  which is not part of the sources at hand. Starting at offset 0 it reads a box header
  (a 4-byte big-endian size and a 4-byte tag; size 1 announces an 8-byte extended size,
  size 0 a box that runs to the end of the buffer); when the header is well formed and
  the declared end does not exceed the buffer it records the box and goes on from the
  declared end; otherwise it stops and returns what it has. A record holds the header's
  offset as \<open>start\<close> and the end of the box as \<open>end\<close>. The spec calls that end
  exclusive; the sources take it as the offset of the last byte of the box
  (\<open>normaliseInitData_\<close> passes \<^verbatim>\<open>dataBoundary.end + 1\<close> where \<^verbatim>\<open>subarray\<close> wants the offset
  after the last byte), and the scan here records what the sources read.
\<close>

function scanBoundaries :: "bytes \<Rightarrow> nat \<Rightarrow> dataBoundary list" where
  "scanBoundaries buf off =
     (if length buf < off + 8 then []
      else
        (let size32 = be (take 4 (drop off buf));
             headerLength = (if size32 = 1 then 16 else 8);
             boxSize = (if size32 = 0 then length buf - off
                        else if size32 = 1 then be (take 8 (drop (off + 8) buf))
                        else size32)
         in if length buf < off + headerLength \<or> boxSize < headerLength
               \<or> length buf < off + boxSize
            then []
            else \<lparr>start = off, end' = off + boxSize - 1\<rparr>
                   # scanBoundaries buf (off + boxSize)))"
  by pat_completeness auto
termination
  by (relation "measure (\<lambda>(buf, off). length buf - off)") (auto simp: Let_def split: if_splits)

declare scanBoundaries.simps [simp del]

text \<open>
  Modelled from the spec: the constructor \<^verbatim>\<open>new shaka.util.Pssh(initData)\<close>, which is not part
  of the sources at hand, as far as its \<open>dataBoundaries\<close> go: the scan from offset 0.
\<close>

definition Pssh_constructor :: "bytes \<Rightarrow> Pssh" where
  "Pssh_constructor initData = \<lparr>dataBoundaries = scanBoundaries initData 0\<rparr>"


text \<open>
  The deduplication step in the words of the spec: of a sequence of regions, the first
  occurrence of each distinct region, in the original order. Position \<open>i\<close> is kept when
  its region is none of the regions before it.
\<close>

definition firstOccurrences :: "'a list \<Rightarrow> 'a list" where
  "firstOccurrences xs =
     map (\<lambda>i. xs ! i) (filter (\<lambda>i. xs ! i \<notin> set (take i xs)) [0..<length xs])"

text \<open>The elements of a list that are not in \<open>S\<close> and not earlier in the list.\<close>

fun unseen :: "'a set \<Rightarrow> 'a list \<Rightarrow> 'a list" where
  "unseen S [] = []"
| "unseen S (x # xs) = (if x \<in> S then unseen S xs else x # unseen (insert x S) xs)"

text \<open>
  A 32-byte \<^verbatim>\<open>pssh\<close> box: size 32, the tag, version 0 and flags 0, a 16-byte system id
  and a data size of 0.
\<close>

definition psshBox :: bytes where
  "psshBox = [0, 0, 0, 32] @ map of_char ''pssh'' @ [0, 0, 0, 0]
     @ [0xED, 0xEF, 0x8B, 0xA9, 0x79, 0xD6, 0x4A, 0xCE,
        0xA3, 0xC8, 0x27, 0xDC, 0xD5, 0x1D, 0x21, 0xED]
     @ [0, 0, 0, 0]"

text \<open>
  The region of a record \<open>{start, end}\<close> in the words of the spec, the bytes
  \<open>[start, end)\<close> of the buffer: from offset \<open>start\<close> up to, and without, offset \<open>end\<close>.
\<close>

definition halfOpen :: "bytes \<Rightarrow> dataBoundary \<Rightarrow> bytes" where
  "halfOpen initData dataBoundary =
     take (end' dataBoundary - start dataBoundary) (drop (start dataBoundary) initData)"


section \<open>The box parser \<^verbatim>\<open>shaka.util.Mp4Parser\<close>\<close>

text \<open>
  The class \<^verbatim>\<open>shaka.util.Mp4Parser\<close> is used by \<^verbatim>\<open>mp4_ttml_parser.js\<close> and is not part of
  the sources at hand. This section models it from the spec: its Box Cursor, Box Parser
  and Sample-Description Dispatcher, under the names the sources call it by
  (\<^verbatim>\<open>box\<close>, \<^verbatim>\<open>fullBox\<close>, \<^verbatim>\<open>children\<close>, \<^verbatim>\<open>sampleDescription\<close>, \<^verbatim>\<open>allData\<close>, \<^verbatim>\<open>parse\<close>, \<^verbatim>\<open>stop\<close>).
\<close>

text \<open>
  Modelled from the spec: what a parse can throw. \<open>TruncatedInput\<close> and \<open>MalformedBox\<close>
  are the parsing errors of the box traversal, which is not part of the sources at hand;
  \<open>Error\<close> is \<^verbatim>\<open>shaka.util.Error\<close>, with the one severity, category and code the sources
  name.
\<close>

datatype Severity = CRITICAL
datatype Category = TEXT
datatype Code = INVALID_MP4_TTML
datatype error = TruncatedInput | MalformedBox | Error Severity Category Code

text \<open>
  Modelled from the spec: how a handler, and a traversal, ends, as a status returned up
  the call chain: it goes on to the next box, it has called \<^verbatim>\<open>parser.stop()\<close>, or it has
  thrown. The stop handle of the parser, missing from the sources, is the status \<open>Stop\<close>.
\<close>

datatype outcome = Continue | Stop | is_Throw: Throw error

text \<open>
  Modelled from the spec: a box tag, missing from the sources as a type, is the four
  bytes of its name.
\<close>

definition typeFromString :: "string \<Rightarrow> bytes" where
  "typeFromString name = map of_char name"

text \<open>
  Modelled from the spec: what a handler is given of a box (the object is constructed by
  the parser, which is missing from the sources): the version and flags of a full box,
  the payload, and the path of box types from the root.
\<close>

record box =
  version :: "nat option"
  flags :: "nat option"
  reader :: bytes
  path :: "bytes list"

datatype BoxType = BASIC_BOX | FULL_BOX

text \<open>
  Modelled from the spec: the handler kinds of the registration table, which is missing
  from the sources, as the sources register them: \<^verbatim>\<open>Mp4Parser.children\<close>,
  \<^verbatim>\<open>Mp4Parser.sampleDescription\<close>, \<^verbatim>\<open>Mp4Parser.allData(callback)\<close> and a function of the
  box. A callback works on the variables of the closure it was made in (\<open>'s\<close>) and says
  how it ended.
\<close>

datatype 's boxDefinition =
    children
  | sampleDescription
  | allData "bytes \<Rightarrow> 's \<Rightarrow> 's \<times> outcome"
  | callback "box \<Rightarrow> 's \<Rightarrow> 's \<times> outcome"

type_synonym 's Mp4Parser = "bytes \<Rightarrow> (BoxType \<times> 's boxDefinition) option"

text \<open>
  Modelled from the spec: the constructor and the registration methods of
  \<^verbatim>\<open>shaka.util.Mp4Parser\<close>, which are missing from the sources. A parser is its
  registration table; \<open>box\<close> and \<open>fullBox\<close> add a rule, and the last registration for a
  type wins.
\<close>

definition Mp4Parser_new :: "'s Mp4Parser" where
  "Mp4Parser_new = (\<lambda>_. None)"

definition box :: "'s Mp4Parser \<Rightarrow> string \<Rightarrow> 's boxDefinition \<Rightarrow> 's Mp4Parser" where
  "box this type def = this(typeFromString type \<mapsto> (BASIC_BOX, def))"

definition fullBox :: "'s Mp4Parser \<Rightarrow> string \<Rightarrow> 's boxDefinition \<Rightarrow> 's Mp4Parser" where
  "fullBox this type def = this(typeFromString type \<mapsto> (FULL_BOX, def))"

text \<open>
  Modelled from the spec: the Box Cursor's reading of one box, missing from the sources,
  at the start of a scope that holds at least 8 bytes. The header is a 4-byte big-endian size and a 4-byte tag; size 1 is followed by
  an 8-byte extended size; size 0 means that the box runs to the end of the scope. A
  short read of the header throws \<open>TruncatedInput\<close>, and in partial mode ends the scope
  quietly (\<open>None\<close>). A declared size below the header length is a \<open>MalformedBox\<close>; one that
  runs past the scope is a \<open>MalformedBox\<close>, and in partial mode the box is clamped to
  the bytes there are. The result is the tag, the payload and the rest of the scope.
\<close>

definition readBox :: "bool \<Rightarrow> bytes \<Rightarrow> error + (bytes \<times> bytes \<times> bytes) option" where
  "readBox partial scope =
     (let size32 = be (take 4 scope);
          type = take 4 (drop 4 scope);
          headerLength = (if size32 = 1 then 16 else 8)
      in if length scope < headerLength then (if partial then Inr None else Inl TruncatedInput)
         else
           (let declared = (if size32 = 0 then length scope
                            else if size32 = 1 then be (take 8 (drop 8 scope))
                            else size32)
            in if declared < headerLength then Inl MalformedBox
               else if length scope < declared \<and> \<not> partial then Inl MalformedBox
               else
                 (let boxSize = min declared (length scope)
                  in Inr (Some (type, take (boxSize - headerLength) (drop headerLength scope),
                                drop boxSize scope)))))"

text \<open>
  Modelled from the spec: the full-box header, whose reading is missing from the sources.
  For a type registered as a full box, the version (8 bits) and the flags (24 bits) are
  read off the payload before the handler runs; a payload too short for them throws
  \<open>TruncatedInput\<close>, and in partial mode the box is passed over.
\<close>

definition fullBoxHeader ::
  "BoxType \<Rightarrow> bool \<Rightarrow> bytes \<Rightarrow> error + (nat option \<times> nat option \<times> bytes) option" where
  "fullBoxHeader boxType partial payload =
     (case boxType of
        BASIC_BOX \<Rightarrow> Inr (Some (None, None, payload))
      | FULL_BOX \<Rightarrow>
          if length payload < 4 then (if partial then Inr None else Inl TruncatedInput)
          else Inr (Some (Some (be (take 1 payload)), Some (be (take 3 (drop 1 payload))),
                          drop 4 payload)))"

lemma readBox_shorter:
  "readBox partial scope = Inr (Some (type, payload, rest)) \<Longrightarrow> 8 \<le> length scope \<Longrightarrow>
     length payload + 8 \<le> length scope \<and> length rest + 8 \<le> length scope"
  by (auto simp: readBox_def Let_def split: if_splits)

lemma fullBoxHeader_shorter:
  "fullBoxHeader boxType partial payload = Inr (Some (v, fl, body)) \<Longrightarrow>
     length body \<le> length payload"
  by (auto simp: fullBoxHeader_def split: BoxType.splits if_splits)

text \<open>
  Modelled from the spec: the traversal of \<^verbatim>\<open>shaka.util.Mp4Parser\<close>, which is missing from
  the sources. \<open>parseBoxes\<close> walks the boxes of a scope (the
  whole buffer, or the payload of a box whose handler is \<open>children\<close>): an empty scope
  ends it, fewer than 8 bytes end it with \<open>TruncatedInput\<close> unless the parse is partial;
  a box of an unregistered type is skipped; after a handler the walk goes on at the
  declared end of the box, whatever the handler read, unless the handler stopped the
  parser or threw, which unwinds the whole traversal. \<open>sampleEntries\<close> is the loop of
  \<open>sampleDescription\<close>: for each of the entries counted it reads a sub-box and
  dispatches on its tag; an entry with no room for a header is a \<open>MalformedBox\<close>.
  \<open>dispatch\<close> runs the handler registered for a tag on the payload of the box.
\<close>

function parseBoxes ::
    "'s Mp4Parser \<Rightarrow> bool \<Rightarrow> bytes list \<Rightarrow> bytes \<Rightarrow> 's \<Rightarrow> 's \<times> outcome"
  and sampleEntries ::
    "'s Mp4Parser \<Rightarrow> bool \<Rightarrow> bytes list \<Rightarrow> nat \<Rightarrow> bytes \<Rightarrow> 's \<Rightarrow> 's \<times> outcome"
  and dispatch ::
    "'s Mp4Parser \<Rightarrow> bool \<Rightarrow> bytes list \<Rightarrow> bytes \<Rightarrow> bytes \<Rightarrow> 's \<Rightarrow> 's \<times> outcome"
where
  "parseBoxes this partial ancestors scope s =
     (if scope = [] then (s, Continue)
      else if length scope < 8 then (s, if partial then Continue else Throw TruncatedInput)
      else case readBox partial scope of
        Inl e \<Rightarrow> (s, Throw e)
      | Inr None \<Rightarrow> (s, Continue)
      | Inr (Some (type, payload, rest)) \<Rightarrow>
          (case dispatch this partial ancestors type payload s of
             (s', Continue) \<Rightarrow> parseBoxes this partial ancestors rest s'
           | (s', Stop) \<Rightarrow> (s', Stop)
           | (s', Throw e) \<Rightarrow> (s', Throw e)))"
| "sampleEntries this partial ancestors count scope s =
     (if count = 0 then (s, Continue)
      else if length scope < 8 then (s, Throw MalformedBox)
      else case readBox partial scope of
        Inl e \<Rightarrow> (s, Throw e)
      | Inr None \<Rightarrow> (s, Continue)
      | Inr (Some (type, payload, rest)) \<Rightarrow>
          (case dispatch this partial ancestors type payload s of
             (s', Continue) \<Rightarrow> sampleEntries this partial ancestors (count - 1) rest s'
           | (s', Stop) \<Rightarrow> (s', Stop)
           | (s', Throw e) \<Rightarrow> (s', Throw e)))"
| "dispatch this partial ancestors type payload s =
     (case this type of
        None \<Rightarrow> (s, Continue)
      | Some (boxType, def) \<Rightarrow>
          (case fullBoxHeader boxType partial payload of
             Inl e \<Rightarrow> (s, Throw e)
           | Inr None \<Rightarrow> (s, Continue)
           | Inr (Some (v, fl, body)) \<Rightarrow>
               (case def of
                  children \<Rightarrow> parseBoxes this partial (ancestors @ [type]) body s
                | sampleDescription \<Rightarrow>
                    if length body < 4
                    then (s, if partial then Continue else Throw TruncatedInput)
                    else sampleEntries this partial (ancestors @ [type])
                           (be (take 4 body)) (drop 4 body) s
                | allData f \<Rightarrow> f body s
                | callback f \<Rightarrow>
                    f \<lparr>version = v, flags = fl, reader = body,
                       path = ancestors @ [type]\<rparr> s)))"
  by pat_completeness auto
termination
  apply (relation "measure (\<lambda>x. case x of
           Inl (this, partial, ancestors, scope, s) \<Rightarrow> 2 * length scope
         | Inr (Inl (this, partial, ancestors, count, scope, s)) \<Rightarrow> 2 * length scope
         | Inr (Inr (this, partial, ancestors, type, payload, s)) \<Rightarrow> 2 * length payload + 1)")
  apply (auto dest!: readBox_shorter fullBoxHeader_shorter)
  done

declare parseBoxes.simps [simp del] sampleEntries.simps [simp del] dispatch.simps [simp del]

text \<open>
  Modelled from the spec: \<^verbatim>\<open>parse(data, partialOkay)\<close> of \<^verbatim>\<open>shaka.util.Mp4Parser\<close>, which is
  missing from the sources: a fresh traversal of the whole buffer, from the closure
  variables as they are; it returns them as the callbacks left them, and how it ended.
\<close>

definition parse :: "'s Mp4Parser \<Rightarrow> bytes \<Rightarrow> bool \<Rightarrow> 's \<Rightarrow> 's \<times> outcome" where
  "parse this data partialOkay s = parseBoxes this partialOkay [] data s"


section \<open>\<^verbatim>\<open>lib/text/mp4_ttml_parser.js\<close>: Mp4TtmlParser\<close>

text \<open>
  The collaborator \<^verbatim>\<open>shaka.text.TtmlTextParser\<close> behind \<^verbatim>\<open>this.parser_\<close> is taken as it
  comes: two functions from a payload and a time context, to one cue and to a list of
  cues. The type of cues and the type of time contexts are left open.
\<close>

record ('time, 'cue) TextParser =
  TextParser_parseFirstCue :: "bytes \<Rightarrow> 'time \<Rightarrow> 'cue"
  TextParser_parseMedia :: "bytes \<Rightarrow> 'time \<Rightarrow> 'cue list"

record ('time, 'cue) Mp4TtmlParser =
  parser' :: "('time, 'cue) TextParser"
  supportsPartial' :: bool

text \<open>\<open>parseInit\<close>: the parser it builds, and the callback for \<^verbatim>\<open>stpp\<close> on the variable \<open>sawSTPP\<close>.\<close>

definition parseInit_parser :: "bool Mp4Parser" where
  "parseInit_parser =
     box (fullBox (box (box (box (box (box Mp4Parser_new
         ''moov'' children)
         ''trak'' children)
         ''mdia'' children)
         ''minf'' children)
         ''stbl'' children)
         ''stsd'' sampleDescription)
         ''stpp'' (callback (\<lambda>box sawSTPP. (True, Stop)))"

text \<open>
  The traversal \<open>parseInit\<close> runs, with \<open>sawSTPP\<close> initially false: what \<open>sawSTPP\<close> is
  afterwards, and how the traversal ended.
\<close>

definition parseInit_traversal :: "bytes \<Rightarrow> bool \<times> outcome" where
  "parseInit_traversal data = parse parseInit_parser data False False"

definition parseInit :: "bytes \<Rightarrow> error + unit" where
  "parseInit data =
     (case parseInit_traversal data of
        (sawSTPP, Throw e) \<Rightarrow> Inl e
      | (sawSTPP, _) \<Rightarrow>
          if \<not> sawSTPP then Inl (Error CRITICAL TEXT INVALID_MP4_TTML) else Inr ())"

text \<open>
  \<open>parseMediaInternal_\<close>: its closure variables \<open>sawMDAT\<close> and \<open>payload\<close>, and next to them
  the calls made to \<^verbatim>\<open>this.parser_\<close>, in order, so that they can be counted.
\<close>

datatype 'time parserCall = ParseFirstCue bytes 'time | ParseMedia bytes 'time

record ('time, 'cue) mediaClosure =
  sawMDAT :: bool
  payload :: "'cue list"
  parserCalls :: "'time parserCall list"

definition mdatCallback ::
  "('time, 'cue) Mp4TtmlParser \<Rightarrow> 'time \<Rightarrow> bool \<Rightarrow> bytes \<Rightarrow>
     ('time, 'cue) mediaClosure \<Rightarrow> ('time, 'cue) mediaClosure \<times> outcome" where
  "mdatCallback this time partial data c =
     (let c = c\<lparr>sawMDAT := True\<rparr>
      in if partial
         then (c\<lparr>payload := [TextParser_parseFirstCue (parser' this) data time],
                 parserCalls := parserCalls c @ [ParseFirstCue data time]\<rparr>, Stop)
         else (c\<lparr>payload := payload c @ TextParser_parseMedia (parser' this) data time,
                 parserCalls := parserCalls c @ [ParseMedia data time]\<rparr>, Continue))"

text \<open>
  The parser \<open>parseMediaInternal_\<close> builds, and the traversal it runs, from \<open>sawMDAT\<close>
  false and an empty \<open>payload\<close>.
\<close>

definition parseMedia_parser ::
  "('time, 'cue) Mp4TtmlParser \<Rightarrow> 'time \<Rightarrow> bool \<Rightarrow> ('time, 'cue) mediaClosure Mp4Parser" where
  "parseMedia_parser this time partial =
     box Mp4Parser_new ''mdat'' (allData (mdatCallback this time partial))"

definition parseMedia_traversal ::
  "('time, 'cue) Mp4TtmlParser \<Rightarrow> bytes \<Rightarrow> 'time \<Rightarrow> bool \<Rightarrow>
     ('time, 'cue) mediaClosure \<times> outcome" where
  "parseMedia_traversal this data time partial =
     parse (parseMedia_parser this time partial) data partial
       \<lparr>sawMDAT = False, payload = [], parserCalls = []\<rparr>"

definition parseMediaInternal' ::
  "('time, 'cue) Mp4TtmlParser \<Rightarrow> bytes \<Rightarrow> 'time \<Rightarrow> bool \<Rightarrow>
     (error + 'cue list) \<times> 'time parserCall list" where
  "parseMediaInternal' this data time partial =
     (case parseMedia_traversal this data time partial of
        (c, Throw e) \<Rightarrow> (Inl e, parserCalls c)
      | (c, _) \<Rightarrow>
          if \<not> sawMDAT c then (Inl (Error CRITICAL TEXT INVALID_MP4_TTML), parserCalls c)
          else (Inr (payload c), parserCalls c))"

text \<open>\<open>parseFirstCue\<close> returns element 0 of the array, which is \<^verbatim>\<open>undefined\<close> for an empty one.\<close>

definition parseFirstCue ::
  "('time, 'cue) Mp4TtmlParser \<Rightarrow> bytes \<Rightarrow> 'time \<Rightarrow>
     (error + 'cue nullable) \<times> 'time parserCall list" where
  "parseFirstCue this data time =
     (case parseMediaInternal' this data time True of
        (Inl e, calls) \<Rightarrow> (Inl e, calls)
      | (Inr cues, calls) \<Rightarrow> (Inr (case cues of [] \<Rightarrow> Undefined | cue # _ \<Rightarrow> Value cue), calls))"

definition parseMedia ::
  "('time, 'cue) Mp4TtmlParser \<Rightarrow> bytes \<Rightarrow> 'time \<Rightarrow>
     (error + 'cue list) \<times> 'time parserCall list" where
  "parseMedia this data time = parseMediaInternal' this data time False"

definition supportsPartial :: "('time, 'cue) Mp4TtmlParser \<Rightarrow> bool" where
  "supportsPartial this = supportsPartial' this"

text \<open>
  Modelled from the spec: the registry of \<^verbatim>\<open>shaka.text.TextEngine\<close>, which is not part of
  the sources at hand: a map from MIME types to parser classes.
\<close>

datatype plugin = Mp4TtmlParser_class

definition registerParser ::
  "string \<Rightarrow> plugin \<Rightarrow> (string \<rightharpoonup> plugin) \<Rightarrow> (string \<rightharpoonup> plugin)" where
  "registerParser mimeType plugin parserMap = parserMap(mimeType \<mapsto> plugin)"

text \<open>
  The two calls to \<^verbatim>\<open>registerParser\<close> at the end of the file: their MIME types, and the
  registry after the two calls, in their order. Both enter the one class
  \<open>Mp4TtmlParser\<close>.
\<close>

definition mimeType_stpp :: string where
  \<open>mimeType_stpp = ''application/mp4; codecs="stpp"''\<close>

definition mimeType_stpp_TTML_im1t :: string where
  \<open>mimeType_stpp_TTML_im1t = ''application/mp4; codecs="stpp.TTML.im1t"''\<close>

definition registered :: "string \<rightharpoonup> plugin" where
  "registered =
     registerParser mimeType_stpp_TTML_im1t Mp4TtmlParser_class
       (registerParser mimeType_stpp Mp4TtmlParser_class Map.empty)"


section \<open>Traversals to compare with, and buffers to try\<close>

text \<open>
  The \<^verbatim>\<open>mdat\<close> boxes a traversal meets: a parser with the one rule of
  \<open>parseMediaInternal_\<close>, whose callback only appends the payload it is given to a list,
  and stops the parser after the first payload when \<open>stopAtFirst\<close>. \<open>mdatsIn\<close> is what a
  traversal of the whole buffer that never stops meets, and how it ends.
\<close>

definition mdatRecorder :: "bool \<Rightarrow> bytes list Mp4Parser" where
  "mdatRecorder stopAtFirst =
     box Mp4Parser_new ''mdat''
       (allData (\<lambda>data visited. (visited @ [data], if stopAtFirst then Stop else Continue)))"

definition mdatsIn :: "bool \<Rightarrow> bytes \<Rightarrow> bytes list \<times> outcome" where
  "mdatsIn partial data = parse (mdatRecorder False) data partial []"

text \<open>
  What the closure variables of \<open>parseMediaInternal_\<close> hold, and the calls made, once the
  payloads \<open>visited\<close> have been handed to its callback in this order.
\<close>

definition handedOver ::
  "('time, 'cue) Mp4TtmlParser \<Rightarrow> 'time \<Rightarrow> bool \<Rightarrow> bytes list \<Rightarrow> ('time, 'cue) mediaClosure" where
  "handedOver this time partial visited =
     \<lparr>sawMDAT = (visited \<noteq> []),
      payload = (if partial
                 then (if visited = [] then []
                       else [TextParser_parseFirstCue (parser' this) (last visited) time])
                 else concat (map (\<lambda>data. TextParser_parseMedia (parser' this) data time) visited)),
      parserCalls = map (\<lambda>data. if partial then ParseFirstCue data time else ParseMedia data time)
                      visited\<rparr>"

text \<open>
  A size as four big-endian bytes, and a box as its bytes: the size, the tag, the
  content.
\<close>

definition u32 :: "nat \<Rightarrow> bytes" where
  "u32 n = [of_nat (n div 2 ^ 24), of_nat (n div 2 ^ 16), of_nat (n div 2 ^ 8), of_nat n]"

definition boxBytes :: "string \<Rightarrow> bytes \<Rightarrow> bytes" where
  "boxBytes type content = u32 (8 + length content) @ typeFromString type @ content"

text \<open>Two \<^verbatim>\<open>mdat\<close> boxes with a box of another type between them.\<close>

definition twoMdats :: bytes where
  "twoMdats = boxBytes ''mdat'' [1, 2, 3] @ boxBytes ''free'' [9] @ boxBytes ''mdat'' [4, 5]"

text \<open>
  A minimal initialization segment: the chain \<^verbatim>\<open>moov > trak > mdia > minf > stbl > stsd\<close>,
  the \<^verbatim>\<open>stsd\<close> full box with version 0, flags 0 and one entry of the given type.
\<close>

definition initSegment :: "string \<Rightarrow> bytes \<Rightarrow> bytes" where
  "initSegment entryType entry =
     boxBytes ''moov'' (boxBytes ''trak'' (boxBytes ''mdia'' (boxBytes ''minf''
       (boxBytes ''stbl'' (boxBytes ''stsd'' ([0, 0, 0, 0] @ u32 1 @ boxBytes entryType entry))))))"

text \<open>
  Containers in general, as the bytes of their boxes. For the parser of \<open>parseInit\<close>, a
  box is \<open>otherBox\<close> when no handler is registered for its type (\<^verbatim>\<open>ftyp\<close>, \<^verbatim>\<open>mvhd\<close>,
  \<^verbatim>\<open>avc1\<close>, ...) and \<open>chainBox\<close> when its type is registered with \<open>children\<close>; either
  way its size fits the 32 bits of the header.
\<close>

definition otherBox :: "string \<Rightarrow> bytes \<Rightarrow> bool" where
  "otherBox type content =
     (length type = 4 \<and> length content + 8 < 2 ^ 32
      \<and> parseInit_parser (typeFromString type) = None)"

definition chainBox :: "string \<Rightarrow> bytes \<Rightarrow> bool" where
  "chainBox type content =
     (length type = 4 \<and> length content + 8 < 2 ^ 32
      \<and> parseInit_parser (typeFromString type) = Some (BASIC_BOX, children))"

text \<open>\<open>otherEntries n scope\<close>: the scope is \<open>n\<close> sample entries, none of a registered type.\<close>

inductive otherEntries :: "nat \<Rightarrow> bytes \<Rightarrow> bool" where
  none: "otherEntries 0 []"
| more: "otherBox type content \<Longrightarrow> otherEntries n rest \<Longrightarrow>
     otherEntries (Suc n) (boxBytes type content @ rest)"

text \<open>
  \<open>noSubtitle scope\<close>: the scope is a sequence of boxes in which no \<^verbatim>\<open>stpp\<close> box is to be
  found: boxes of unregistered types, whatever they hold; boxes of the chain types
  that hold such a sequence; and \<^verbatim>\<open>stsd\<close> boxes (version and flags \<open>vf\<close>, then the entry
  count) whose counted entries are of unregistered types, whatever follows the entries.
\<close>

inductive noSubtitle :: "bytes \<Rightarrow> bool" where
  empty: "noSubtitle []"
| other: "otherBox type content \<Longrightarrow> noSubtitle rest \<Longrightarrow>
     noSubtitle (boxBytes type content @ rest)"
| inside: "chainBox type content \<Longrightarrow> noSubtitle content \<Longrightarrow> noSubtitle rest \<Longrightarrow>
     noSubtitle (boxBytes type content @ rest)"
| descriptions: "length vf = 4 \<Longrightarrow> count < 2 ^ 32 \<Longrightarrow> otherEntries count entries \<Longrightarrow>
     length entries + length unread + 16 < 2 ^ 32 \<Longrightarrow> noSubtitle rest \<Longrightarrow>
     noSubtitle (boxBytes ''stsd'' (vf @ u32 count @ entries @ unread) @ rest)"

text \<open>
  \<open>declares chain tag scope\<close>: the scope declares a sample entry of type \<open>tag\<close> under the
  chain of boxes \<open>chain\<close>, which ends in \<^verbatim>\<open>stsd\<close>. At each level the box of the chain may
  come after boxes in which there is no \<^verbatim>\<open>stpp\<close>, and anything may come behind it; in the
  \<^verbatim>\<open>stsd\<close> box the entry is one of the entries counted, after \<open>k\<close> entries of
  unregistered types, and it holds anything.
\<close>

inductive declares :: "string list \<Rightarrow> string \<Rightarrow> bytes \<Rightarrow> bool" where
  description: "noSubtitle before \<Longrightarrow> length vf = 4 \<Longrightarrow> count < 2 ^ 32 \<Longrightarrow>
     otherEntries k earlier \<Longrightarrow> k < count \<Longrightarrow> length tag = 4 \<Longrightarrow>
     length earlier + length entry + length later + 24 < 2 ^ 32 \<Longrightarrow>
     declares [''stsd''] tag
       (before @ boxBytes ''stsd'' (vf @ u32 count @ earlier @ boxBytes tag entry @ later) @ behind)"
| under: "noSubtitle before \<Longrightarrow> chainBox type content \<Longrightarrow> declares chain tag content \<Longrightarrow>
     declares (type # chain) tag (before @ boxBytes type content @ behind)"

text \<open>
  An initialization segment of a text stream as packagers write it, around an entry of
  the given type: \<^verbatim>\<open>ftyp\<close> before \<^verbatim>\<open>moov\<close>, header boxes before each box of the chain,
  \<^verbatim>\<open>stts\<close> behind \<^verbatim>\<open>stsd\<close> and \<^verbatim>\<open>mvex\<close> behind \<^verbatim>\<open>trak\<close>.
\<close>

definition textSegment :: "string \<Rightarrow> bytes \<Rightarrow> bytes" where
  "textSegment entryType entry =
     boxBytes ''ftyp'' (typeFromString ''iso6'')
     @ boxBytes ''moov''
         (boxBytes ''mvhd'' [0, 0, 0, 0]
          @ boxBytes ''trak''
              (boxBytes ''tkhd'' [0, 0, 0, 7]
               @ boxBytes ''mdia''
                   (boxBytes ''mdhd'' [0, 0, 0, 0] @ boxBytes ''hdlr'' (typeFromString ''subt'')
                    @ boxBytes ''minf''
                        (boxBytes ''sthd'' [0, 0, 0, 0]
                         @ boxBytes ''stbl''
                             (boxBytes ''stsd'' ([0, 0, 0, 0] @ u32 1 @ boxBytes entryType entry)
                              @ boxBytes ''stts'' [0, 0, 0, 0, 0, 0, 0, 0]))))
          @ boxBytes ''mvex'' [])"


text \<open>A stand-in for \<^verbatim>\<open>this.parser_\<close>, with time contexts and cue contents one can read.\<close>

definition stubParser :: "(nat, nat \<times> bytes) TextParser" where
  "stubParser = \<lparr>TextParser_parseFirstCue = (\<lambda>data time. (time, take 1 data)),
                 TextParser_parseMedia = (\<lambda>data time. map (\<lambda>b. (time, [b])) data)\<rparr>"

definition stubMp4TtmlParser :: "(nat, nat \<times> bytes) Mp4TtmlParser" where
  "stubMp4TtmlParser = \<lparr>parser' = stubParser, supportsPartial' = False\<rparr>"

text \<open>
  A buffer cut off inside its first header, a box that declares 100 bytes in a
  buffer of 9, and a box that declares 4 bytes, fewer than its header has.
\<close>

definition truncated :: bytes where
  "truncated = [0, 0, 0]"

definition overlong :: bytes where
  "overlong = [0, 0, 0, 100] @ map of_char ''free'' @ [1]"

definition undersized :: bytes where
  "undersized = [0, 0, 0, 4] @ map of_char ''free''"

text \<open>
  A property \<open>Q\<close> of a step, from the closure variables before to the variables and the
  outcome after, that every callback a parser registers has.
\<close>

definition handlersKeep :: "'s Mp4Parser \<Rightarrow> ('s \<Rightarrow> 's \<times> outcome \<Rightarrow> bool) \<Rightarrow> bool" where
  "handlersKeep P Q =
     ((\<forall>type boxType f d s. P type = Some (boxType, allData f) \<longrightarrow> Q s (f d s))
      \<and> (\<forall>type boxType g b s. P type = Some (boxType, callback g) \<longrightarrow> Q s (g b s)))"


section \<open>Properties of MediaKeyStatusMap\<close>

lemma size_agrees_constructor: "size_agrees MediaKeyStatusMap_constructor"
  by (simp add: size_agrees_def MediaKeyStatusMap_constructor_def eq_undefined_def)

lemma size_agrees_setStatus: "size_agrees (setStatus status this)"
  by (simp add: size_agrees_def setStatus_def)

text \<open>
  Claim C10. The map keeps \<open>size\<close> at 1 when a status is set and at 0 when none is: this
  holds of a newly constructed map, after \<open>setStatus\<close> with any argument (\<^verbatim>\<open>undefined\<close>
  included) on any map, and so after any sequence of calls; \<open>size\<close> is 0 or 1, and it is
  0 exactly when \<open>getStatus\<close> compares equal to \<^verbatim>\<open>undefined\<close>.
\<close>

theorem MediaKeyStatusMap_size_invariant:
  "size_agrees MediaKeyStatusMap_constructor
   \<and> size_agrees (setStatus status this)
   \<and> size_agrees (foldl (\<lambda>this status. setStatus status this) MediaKeyStatusMap_constructor statuses)
   \<and> (size' (setStatus status this) = 0 \<or> size' (setStatus status this) = 1)
   \<and> (size' (setStatus status this) = 0 \<longleftrightarrow> eq_undefined (getStatus (setStatus status this)))"
proof -
  have "size_agrees (foldl (\<lambda>this status. setStatus status this) MediaKeyStatusMap_constructor statuses)"
    by (induction statuses rule: rev_induct) (simp_all add: size_agrees_constructor size_agrees_setStatus)
  then show ?thesis
    by (simp add: size_agrees_constructor size_agrees_setStatus) (simp add: setStatus_def getStatus_def)
qed

text \<open>A status is set, then taken away again.\<close>

theorem MediaKeyStatusMap_size_invariant_witness:
  "size' MediaKeyStatusMap_constructor = 0
   \<and> size' (setStatus (Value ''usable'') MediaKeyStatusMap_constructor) = 1
   \<and> size' (setStatus Undefined (setStatus (Value ''usable'') MediaKeyStatusMap_constructor)) = 0"
  using MediaKeyStatusMap_size_invariant [of "Value ''usable''" MediaKeyStatusMap_constructor "[]"]
    MediaKeyStatusMap_size_invariant [of Undefined
      "setStatus (Value ''usable'') MediaKeyStatusMap_constructor" "[]"]
  by (simp add: size_agrees_def eq_undefined_def getStatus_def setStatus_def
      MediaKeyStatusMap_constructor_def)


section \<open>Properties of normaliseInitData\<close>

text \<open>
  Claim C9. For \<^verbatim>\<open>null\<close> and for \<^verbatim>\<open>undefined\<close> the function returns its argument and
  calls neither the boundary scan nor the concatenation, whatever the scanner is.
\<close>

theorem normaliseInitData_null:
  "normaliseInitData' new_Pssh Null = (Null, [])
   \<and> normaliseInitData' new_Pssh Undefined = (Undefined, [])"
  by (simp add: normaliseInitData'_def not_object_def)

text \<open>
  Claim C5. When the scan finds no boundary or one, the function returns its argument,
  the array it was given; the scan is the only call it has made.
\<close>

theorem normaliseInitData_single:
  "length (dataBoundaries (new_Pssh data)) \<le> 1 \<Longrightarrow>
     normaliseInitData' new_Pssh (Value data) = (Value data, [New_Pssh data])"
  by (simp add: normaliseInitData'_def not_object_def)

lemma scan_psshBox: "scanBoundaries psshBox 0 = [\<lparr>start = 0, end' = 31\<rparr>]"
  by code_simp

theorem normaliseInitData_single_witness:
  "length (dataBoundaries (Pssh_constructor psshBox)) \<le> 1
   \<and> normaliseInitData' Pssh_constructor (Value psshBox) = (Value psshBox, [New_Pssh psshBox])"
proof -
  have h: "length (dataBoundaries (Pssh_constructor psshBox)) \<le> 1"
    by (simp add: Pssh_constructor_def scan_psshBox)
  show ?thesis using h normaliseInitData_single [of Pssh_constructor psshBox] by simp
qed

subsection \<open>Deduplication\<close>

lemma equal_iff: "equal a b \<longleftrightarrow> a = b"
  by (induction a b rule: equal.induct) auto

lemma unseen_index:
  "unseen S xs = map (\<lambda>i. xs ! i) (filter (\<lambda>i. xs ! i \<notin> S \<union> set (take i xs)) [0..<length xs])"
proof (induction xs arbitrary: S)
  case Nil
  then show ?case by simp
next
  case (Cons x xs)
  have upt: "[0..<length (x # xs)] = 0 # map Suc [0..<length xs]"
    by (simp add: upt_conv_Cons map_Suc_upt del: upt_Suc)
  show ?case
    unfolding upt
    by (auto simp: Cons.IH filter_map comp_def intro!: arg_cong [where f = "map ((!) xs)"] filter_cong)
qed

lemma dedupedInitDatas_unseen:
  "dedupedInitDatas xs acc = acc @ unseen (set acc) xs"
  by (induction xs arbitrary: acc) (auto simp: list_ex_iff equal_iff Let_def)

lemma dedupedInitDatas_firstOccurrences: "dedupedInitDatas xs [] = firstOccurrences xs"
  by (simp add: dedupedInitDatas_unseen unseen_index firstOccurrences_def)

text \<open>
  Claim C6. Regions are compared byte for byte (\<open>equal\<close> is equality of the contents);
  the second loop keeps the first occurrence of each distinct region, in the original
  order, and what is returned is those regions joined in that order.
\<close>

theorem dedupedInitDatas_first_occurrences:
  "(\<forall>a b. equal a b \<longleftrightarrow> a = b)
   \<and> dedupedInitDatas regions [] = firstOccurrences regions
   \<and> Uint8ArrayUtils_concat (dedupedInitDatas regions []) = concat (firstOccurrences regions)"
  by (simp add: equal_iff dedupedInitDatas_firstOccurrences Uint8ArrayUtils_concat_def)

text \<open>Five regions, two of them repeated.\<close>

theorem dedupedInitDatas_first_occurrences_witness:
  "dedupedInitDatas [[1, 2], [3], [1, 2], [4], [3]] [] = [[1, 2], [3], [4]]
   \<and> firstOccurrences [[1, 2], [3], [1, 2], [4], [3 :: byte]] = [[1, 2], [3], [4]]
   \<and> Uint8ArrayUtils_concat (dedupedInitDatas [[1, 2], [3], [1, 2], [4], [3]] []) = [1, 2, 3, 4]"
proof -
  have d: "dedupedInitDatas [[1, 2], [3], [1, 2], [4], [3]] [] = [[1, 2], [3], [4]]"
    by simp
  have f: "firstOccurrences [[1, 2], [3], [1, 2], [4], [3 :: byte]]
             = dedupedInitDatas [[1, 2], [3], [1, 2], [4], [3]] []"
    by (rule dedupedInitDatas_first_occurrences [THEN conjunct2, THEN conjunct1, symmetric])
  show ?thesis
    unfolding f d by (simp add: Uint8ArrayUtils_concat_def)
qed

subsection \<open>Slicing\<close>

lemma subarray_length: "length (subarray a b e) = min e (length a) - b"
  by (simp add: subarray_def)

lemma subarray_nth: "i < length (subarray a b e) \<Longrightarrow> subarray a b e ! i = a ! (b + i)"
proof -
  assume "i < length (subarray a b e)"
  then have "b + i < e" "b + i < length a"
    by (simp_all add: subarray_def)
  then show ?thesis
    by (simp add: subarray_def)
qed

lemma unfilteredInitDatas_map:
  "unfilteredInitDatas data bs = map (\<lambda>b. subarray data (start b) (end' b + 1)) bs"
  by (induction bs) simp_all

lemma two_copies:
  assumes "b \<noteq> []"
    and "dataBoundaries (new_Pssh (b @ b)) =
           [\<lparr>start = 0, end' = length b - 1\<rparr>, \<lparr>start = length b, end' = 2 * length b - 1\<rparr>]"
  shows "unfilteredInitDatas (b @ b) (dataBoundaries (new_Pssh (b @ b))) = [b, b]"
    and "normaliseInitData' new_Pssh (Value (b @ b))
           = (Value b, [New_Pssh (b @ b), Concat [b]])"
proof -
  from assms(1) have pos: "0 < length b" by simp
  have s1: "subarray (b @ b) 0 (length b - 1 + 1) = b"
    using pos by (simp add: subarray_def)
  have s2: "subarray (b @ b) (length b) (2 * length b - 1 + 1) = b"
    using pos by (simp add: subarray_def)
  show regions: "unfilteredInitDatas (b @ b) (dataBoundaries (new_Pssh (b @ b))) = [b, b]"
    by (simp add: assms(2) s1 s2 del: One_nat_def)
  have "length (dataBoundaries (new_Pssh (b @ b))) = 2"
    by (simp add: assms(2))
  then show "normaliseInitData' new_Pssh (Value (b @ b))
           = (Value b, [New_Pssh (b @ b), Concat [b]])"
    by (simp add: normaliseInitData'_def not_object_def regions Let_def
        equal_iff Uint8ArrayUtils_concat_def)
qed

text \<open>
  The scan of a box that fills its declared size, twice in a row: two records, each
  from the first byte of a copy to its last.
\<close>

lemma scan_two_copies:
  assumes "8 \<le> length b" and "be (take 4 b) = length b"
  shows "scanBoundaries (b @ b) 0 =
           [\<lparr>start = 0, end' = length b - 1\<rparr>, \<lparr>start = length b, end' = 2 * length b - 1\<rparr>]"
proof -
  from assms(1) have ne: "b \<noteq> []"
    by auto
  have third: "scanBoundaries (b @ b) (length b + length b) = []"
    by (subst scanBoundaries.simps) simp
  have second: "scanBoundaries (b @ b) (length b) = [\<lparr>start = length b, end' = 2 * length b - 1\<rparr>]"
    using assms ne by (subst scanBoundaries.simps) (simp add: third Let_def mult_2)
  show ?thesis
    using assms ne by (subst scanBoundaries.simps) (simp add: second Let_def)
qed

lemma psshBox_size: "length psshBox = 32" "be (take 4 psshBox) = 32"
  by (simp_all add: psshBox_def be_def)

text \<open>
  Claim C1, as the code has it. When the scan finds more than one boundary, there is one
  region per record, and the region of a record \<open>{start, end}\<close> holds the bytes of the
  input from offset \<open>start\<close> up to and including offset \<open>end\<close> (it stops at the end of
  the input): the second argument of \<open>subarray\<close> is \<open>end + 1\<close>. What is returned is the
  deduplication of these regions. This holds whatever the scanner is. In particular,
  over a box \<open>b\<close> that fills its declared size (32 bytes, or any other size), twice in a
  row, the scan finds the records \<open>{0, n - 1}\<close> and \<open>{n, 2n - 1}\<close> for the length \<open>n\<close> of
  \<open>b\<close>, the two regions are \<open>b\<close> and \<open>b\<close>, and what is returned is \<open>b\<close>, once.
\<close>

theorem normaliseInitData_slices:
  "(1 < length (dataBoundaries (new_Pssh data)) \<longrightarrow>
      length (unfilteredInitDatas data (dataBoundaries (new_Pssh data)))
           = length (dataBoundaries (new_Pssh data))
      \<and> (\<forall>k < length (dataBoundaries (new_Pssh data)).
          length (unfilteredInitDatas data (dataBoundaries (new_Pssh data)) ! k)
            = min (end' (dataBoundaries (new_Pssh data) ! k) + 1) (length data)
                - start (dataBoundaries (new_Pssh data) ! k)
          \<and> (\<forall>i < length (unfilteredInitDatas data (dataBoundaries (new_Pssh data)) ! k).
                unfilteredInitDatas data (dataBoundaries (new_Pssh data)) ! k ! i
                  = data ! (start (dataBoundaries (new_Pssh data) ! k) + i)))
      \<and> fst (normaliseInitData' new_Pssh (Value data))
         = Value (Uint8ArrayUtils_concat
             (dedupedInitDatas (unfilteredInitDatas data (dataBoundaries (new_Pssh data))) [])))
   \<and> (8 \<le> length b \<and> be (take 4 b) = length b \<longrightarrow>
        dataBoundaries (Pssh_constructor (b @ b))
          = [\<lparr>start = 0, end' = length b - 1\<rparr>, \<lparr>start = length b, end' = 2 * length b - 1\<rparr>]
        \<and> unfilteredInitDatas (b @ b) (dataBoundaries (Pssh_constructor (b @ b))) = [b, b]
        \<and> normaliseInitData' Pssh_constructor (Value (b @ b))
            = (Value b, [New_Pssh (b @ b), Concat [b]]))"
proof -
  have slices: "length (unfilteredInitDatas data (dataBoundaries (new_Pssh data)))
           = length (dataBoundaries (new_Pssh data))
     \<and> (\<forall>k < length (dataBoundaries (new_Pssh data)).
          length (unfilteredInitDatas data (dataBoundaries (new_Pssh data)) ! k)
            = min (end' (dataBoundaries (new_Pssh data) ! k) + 1) (length data)
                - start (dataBoundaries (new_Pssh data) ! k)
          \<and> (\<forall>i < length (unfilteredInitDatas data (dataBoundaries (new_Pssh data)) ! k).
                unfilteredInitDatas data (dataBoundaries (new_Pssh data)) ! k ! i
                  = data ! (start (dataBoundaries (new_Pssh data) ! k) + i)))
     \<and> fst (normaliseInitData' new_Pssh (Value data))
         = Value (Uint8ArrayUtils_concat
             (dedupedInitDatas (unfilteredInitDatas data (dataBoundaries (new_Pssh data))) []))"
    if "1 < length (dataBoundaries (new_Pssh data))"
    using that
    by (simp add: unfilteredInitDatas_map subarray_length subarray_nth normaliseInitData'_def
        not_object_def Let_def)
  have twice: "dataBoundaries (Pssh_constructor (b @ b))
          = [\<lparr>start = 0, end' = length b - 1\<rparr>, \<lparr>start = length b, end' = 2 * length b - 1\<rparr>]
        \<and> unfilteredInitDatas (b @ b) (dataBoundaries (Pssh_constructor (b @ b))) = [b, b]
        \<and> normaliseInitData' Pssh_constructor (Value (b @ b))
            = (Value b, [New_Pssh (b @ b), Concat [b]])"
    if "8 \<le> length b" and "be (take 4 b) = length b"
  proof -
    have records: "dataBoundaries (Pssh_constructor (b @ b))
          = [\<lparr>start = 0, end' = length b - 1\<rparr>, \<lparr>start = length b, end' = 2 * length b - 1\<rparr>]"
      by (simp add: Pssh_constructor_def scan_two_copies [OF that])
    have ne: "b \<noteq> []"
      using that(1) by auto
    from records two_copies [of b Pssh_constructor, OF ne records] show ?thesis
      by blast
  qed
  from slices twice show ?thesis
    by blast
qed

text \<open>
  Over two identical 32-byte \<^verbatim>\<open>pssh\<close> boxes back to back the scan finds the records
  \<open>{0, 31}\<close> and \<open>{32, 63}\<close>, there are two regions of 32 bytes, and the result is one
  32-byte region, equal to either box.
\<close>

theorem normaliseInitData_slices_witness:
  "1 < length (dataBoundaries (Pssh_constructor (psshBox @ psshBox)))
   \<and> 8 \<le> length psshBox \<and> be (take 4 psshBox) = length psshBox \<and> length psshBox = 32
   \<and> dataBoundaries (Pssh_constructor (psshBox @ psshBox))
       = [\<lparr>start = 0, end' = 31\<rparr>, \<lparr>start = 32, end' = 63\<rparr>]
   \<and> length (unfilteredInitDatas (psshBox @ psshBox)
         (dataBoundaries (Pssh_constructor (psshBox @ psshBox)))) = 2
   \<and> unfilteredInitDatas (psshBox @ psshBox)
         (dataBoundaries (Pssh_constructor (psshBox @ psshBox))) = [psshBox, psshBox]
   \<and> normaliseInitData' Pssh_constructor (Value (psshBox @ psshBox))
       = (Value psshBox, [New_Pssh (psshBox @ psshBox), Concat [psshBox]])"
proof -
  note claim = normaliseInitData_slices [of Pssh_constructor "psshBox @ psshBox" psshBox]
  have box: "8 \<le> length psshBox \<and> be (take 4 psshBox) = length psshBox \<and> length psshBox = 32"
    by (simp add: psshBox_size)
  from claim box have twice:
    "dataBoundaries (Pssh_constructor (psshBox @ psshBox))
       = [\<lparr>start = 0, end' = length psshBox - 1\<rparr>,
          \<lparr>start = length psshBox, end' = 2 * length psshBox - 1\<rparr>]
     \<and> unfilteredInitDatas (psshBox @ psshBox)
         (dataBoundaries (Pssh_constructor (psshBox @ psshBox))) = [psshBox, psshBox]
     \<and> normaliseInitData' Pssh_constructor (Value (psshBox @ psshBox))
       = (Value psshBox, [New_Pssh (psshBox @ psshBox), Concat [psshBox]])"
    by blast
  then have more: "1 < length (dataBoundaries (Pssh_constructor (psshBox @ psshBox)))"
    by simp
  with claim have regions: "length (unfilteredInitDatas (psshBox @ psshBox)
         (dataBoundaries (Pssh_constructor (psshBox @ psshBox))))
      = length (dataBoundaries (Pssh_constructor (psshBox @ psshBox)))"
    by blast
  have records: "dataBoundaries (Pssh_constructor (psshBox @ psshBox))
       = [\<lparr>start = 0, end' = 31\<rparr>, \<lparr>start = 32, end' = 63\<rparr>]"
    using twice by (simp add: psshBox_size)
  from box twice more regions records show ?thesis
    by simp
qed

text \<open>
  The same buffer shows that a region is not the bytes \<open>[start, end)\<close> of its record:
  for the records \<open>{0, 31}\<close> and \<open>{32, 63}\<close> those would be 31 bytes each, a box without
  its last byte, and the regions sliced are the 32 bytes of each box.
\<close>

theorem normaliseInitData_half_open_counterexample:
  "dataBoundaries (Pssh_constructor (psshBox @ psshBox))
       = [\<lparr>start = 0, end' = 31\<rparr>, \<lparr>start = 32, end' = 63\<rparr>]
   \<and> map length (unfilteredInitDatas (psshBox @ psshBox)
         (dataBoundaries (Pssh_constructor (psshBox @ psshBox)))) = [32, 32]
   \<and> map (\<lambda>dataBoundary. length (halfOpen (psshBox @ psshBox) dataBoundary))
         (dataBoundaries (Pssh_constructor (psshBox @ psshBox))) = [31, 31]
   \<and> unfilteredInitDatas (psshBox @ psshBox)
         (dataBoundaries (Pssh_constructor (psshBox @ psshBox)))
       \<noteq> map (halfOpen (psshBox @ psshBox))
           (dataBoundaries (Pssh_constructor (psshBox @ psshBox)))"
proof -
  have records: "dataBoundaries (Pssh_constructor (psshBox @ psshBox))
       = [\<lparr>start = 0, end' = 31\<rparr>, \<lparr>start = 32, end' = 63\<rparr>]"
    using scan_two_copies [of psshBox] by (simp add: Pssh_constructor_def psshBox_size)
  have sliced: "map length (unfilteredInitDatas (psshBox @ psshBox)
         (dataBoundaries (Pssh_constructor (psshBox @ psshBox)))) = [32, 32]"
    by (simp add: records subarray_def psshBox_size)
  have spec: "map (\<lambda>dataBoundary. length (halfOpen (psshBox @ psshBox) dataBoundary))
         (dataBoundaries (Pssh_constructor (psshBox @ psshBox))) = [31, 31]"
    by (simp add: records halfOpen_def psshBox_size)
  have "map length (unfilteredInitDatas (psshBox @ psshBox)
         (dataBoundaries (Pssh_constructor (psshBox @ psshBox))))
      \<noteq> map length (map (halfOpen (psshBox @ psshBox))
           (dataBoundaries (Pssh_constructor (psshBox @ psshBox))))"
    unfolding sliced by (simp add: records halfOpen_def psshBox_size)
  then have differ: "unfilteredInitDatas (psshBox @ psshBox)
         (dataBoundaries (Pssh_constructor (psshBox @ psshBox)))
       \<noteq> map (halfOpen (psshBox @ psshBox))
           (dataBoundaries (Pssh_constructor (psshBox @ psshBox)))"
    by auto
  from records sliced spec differ show ?thesis
    by simp
qed


section \<open>Properties of the box traversal\<close>

subsection \<open>One step of the walk\<close>

lemma dispatch_allData:
  "dispatch (box Mp4Parser_new n (allData h)) partial anc type pl s =
     (if type = typeFromString n then h pl s else (s, Continue))"
  by (simp add: dispatch.simps box_def Mp4Parser_new_def fullBoxHeader_def)

lemma parseBoxes_end:
  "scope = [] \<or> length scope < 8 \<Longrightarrow>
     parseBoxes P partial anc scope s =
       (s, if scope = [] \<or> partial then Continue else Throw TruncatedInput)"
  by (subst parseBoxes.simps) auto

lemma parseBoxes_Inl:
  "8 \<le> length scope \<Longrightarrow> readBox partial scope = Inl e \<Longrightarrow>
     parseBoxes P partial anc scope s = (s, Throw e)"
  by (subst parseBoxes.simps) auto

lemma parseBoxes_None:
  "8 \<le> length scope \<Longrightarrow> readBox partial scope = Inr None \<Longrightarrow>
     parseBoxes P partial anc scope s = (s, Continue)"
  by (subst parseBoxes.simps) auto

lemma parseBoxes_Some:
  "8 \<le> length scope \<Longrightarrow> readBox partial scope = Inr (Some (type, pl, rest)) \<Longrightarrow>
     parseBoxes P partial anc scope s =
       (case dispatch P partial anc type pl s of
          (s', Continue) \<Rightarrow> parseBoxes P partial anc rest s'
        | (s', Stop) \<Rightarrow> (s', Stop)
        | (s', Throw e) \<Rightarrow> (s', Throw e))"
  by (subst parseBoxes.simps) auto

lemma sampleEntries_Some:
  "0 < count \<Longrightarrow> 8 \<le> length scope \<Longrightarrow> readBox partial scope = Inr (Some (type, pl, rest)) \<Longrightarrow>
     sampleEntries P partial anc count scope s =
       (case dispatch P partial anc type pl s of
          (s', Continue) \<Rightarrow> sampleEntries P partial anc (count - 1) rest s'
        | (s', Stop) \<Rightarrow> (s', Stop)
        | (s', Throw e) \<Rightarrow> (s', Throw e))"
  by (subst sampleEntries.simps) auto

lemma readBox_errors: "readBox partial scope = Inl e \<Longrightarrow> e = TruncatedInput \<or> e = MalformedBox"
  by (auto simp: readBox_def Let_def split: if_splits)

lemma fullBoxHeader_errors:
  "fullBoxHeader boxType partial content = Inl e \<Longrightarrow> e = TruncatedInput"
  by (auto simp: fullBoxHeader_def split: BoxType.splits if_splits)

subsection \<open>What every traversal keeps\<close>

text \<open>
  A property of steps that holds of going on with the variables unchanged, of throwing
  one of the two parsing errors with the variables unchanged, and of a step that goes on
  followed by a step with the property, holds of the whole traversal as soon as the
  registered callbacks have it. The proof follows the recursion of the three functions.
\<close>

lemma traversal_keeps:
  fixes P :: "'s Mp4Parser" and Q :: "'s \<Rightarrow> 's \<times> outcome \<Rightarrow> bool"
  assumes cont: "\<And>s. Q s (s, Continue)"
    and trunc: "\<And>s. Q s (s, Throw TruncatedInput)"
    and malformed: "\<And>s. Q s (s, Throw MalformedBox)"
    and step: "\<And>s s' r. Q s (s', Continue) \<Longrightarrow> Q s' r \<Longrightarrow> Q s r"
  shows "handlersKeep P Q \<Longrightarrow> Q s (parseBoxes P partial anc scope s)"
    and "handlersKeep P Q \<Longrightarrow> Q s (sampleEntries P partial anc count scope s)"
    and "handlersKeep P Q \<Longrightarrow> Q s (dispatch P partial anc type content s)"
proof (induction P partial anc scope s and P partial anc count scope s and P partial anc type content s
    rule: parseBoxes_sampleEntries_dispatch.induct)
  case (1 this partial ancestors scope s)
  note keep = "1.prems"
  show ?case
  proof (cases "scope = [] \<or> length scope < 8")
    case True
    then show ?thesis
      by (simp add: parseBoxes_end cont trunc)
  next
    case False
    then have ne: "scope \<noteq> []" and nl: "\<not> length scope < 8" and len: "8 \<le> length scope"
      by simp_all
    show ?thesis
    proof (cases "readBox partial scope")
      case (Inl e')
      with len readBox_errors [OF Inl] show ?thesis
        by (auto simp: parseBoxes_Inl trunc malformed)
    next
      case (Inr r)
      show ?thesis
      proof (cases r)
        case None
        with Inr len show ?thesis
          by (simp add: parseBoxes_None cont)
      next
        case (Some trip)
        obtain type pl rest where trip: "trip = (type, pl, rest)"
          by (cases trip) auto
        have rb: "readBox partial scope = Inr (Some (type, pl, rest))"
          using Inr Some trip by simp
        obtain s' out where d: "dispatch this partial ancestors type pl s = (s', out)"
          by (cases "dispatch this partial ancestors type pl s") auto
        have first: "Q s (s', out)"
          using "1.IH"(1) [OF ne nl rb refl refl refl keep] d by simp
        show ?thesis
        proof (cases out)
          case Continue
          have "Q s' (parseBoxes this partial ancestors rest s')"
            by (rule "1.IH"(2) [OF ne nl rb refl refl refl d [symmetric] Continue keep])
          with first Continue have "Q s (parseBoxes this partial ancestors rest s')"
            by (blast intro: step)
          with d Continue show ?thesis
            by (simp add: parseBoxes_Some [OF len rb])
        next
          case Stop
          with first d show ?thesis
            by (simp add: parseBoxes_Some [OF len rb])
        next
          case (Throw e')
          with first d show ?thesis
            by (simp add: parseBoxes_Some [OF len rb])
        qed
      qed
    qed
  qed
next
  case (2 this partial ancestors count scope s)
  note keep = "2.prems"
  show ?case
  proof (cases "count = 0")
    case True
    then show ?thesis
      by (simp add: sampleEntries.simps cont)
  next
    case nz: False
    show ?thesis
    proof (cases "length scope < 8")
      case True
      with nz show ?thesis
        by (simp add: sampleEntries.simps malformed)
    next
      case nl: False
      then have len: "8 \<le> length scope" by simp
      from nz have pos: "0 < count" by simp
      show ?thesis
      proof (cases "readBox partial scope")
        case (Inl e')
        with nz nl readBox_errors [OF Inl] show ?thesis
          by (subst sampleEntries.simps) (auto simp: trunc malformed)
      next
        case (Inr r)
        show ?thesis
        proof (cases r)
          case None
          with Inr nz nl show ?thesis
            by (subst sampleEntries.simps) (simp add: cont)
        next
          case (Some trip)
          obtain type pl rest where trip: "trip = (type, pl, rest)"
            by (cases trip) auto
          have rb: "readBox partial scope = Inr (Some (type, pl, rest))"
            using Inr Some trip by simp
          obtain s' out where d: "dispatch this partial ancestors type pl s = (s', out)"
            by (cases "dispatch this partial ancestors type pl s") auto
          have first: "Q s (s', out)"
            using "2.IH"(1) [OF nz nl rb refl refl refl keep] d by simp
          show ?thesis
          proof (cases out)
            case Continue
            have "Q s' (sampleEntries this partial ancestors (count - 1) rest s')"
              by (rule "2.IH"(2) [OF nz nl rb refl refl refl d [symmetric] Continue keep])
            with first Continue
            have "Q s (sampleEntries this partial ancestors (count - 1) rest s')"
              by (blast intro: step)
            with d Continue show ?thesis
              by (simp add: sampleEntries_Some [OF pos len rb])
          next
            case Stop
            with first d show ?thesis
              by (simp add: sampleEntries_Some [OF pos len rb])
          next
            case (Throw e')
            with first d show ?thesis
              by (simp add: sampleEntries_Some [OF pos len rb])
          qed
        qed
      qed
    qed
  qed
next
  case (3 this partial ancestors type content s)
  note keep = "3.prems"
  show ?case
  proof (cases "this type")
    case None
    then show ?thesis
      by (simp add: dispatch.simps cont)
  next
    case (Some reg)
    obtain boxType def where reg: "reg = (boxType, def)"
      by (cases reg) auto
    have look: "this type = Some (boxType, def)"
      using Some reg by simp
    show ?thesis
    proof (cases "fullBoxHeader boxType partial content")
      case (Inl e')
      with look fullBoxHeader_errors [OF Inl] show ?thesis
        by (simp add: dispatch.simps trunc)
    next
      case (Inr h)
      show ?thesis
      proof (cases h)
        case None
        with Inr look show ?thesis
          by (simp add: dispatch.simps cont)
      next
        case (Some trip)
        obtain v fl body where trip: "trip = (v, fl, body)"
          by (cases trip) auto
        have fb: "fullBoxHeader boxType partial content = Inr (Some (v, fl, body))"
          using Inr Some trip by simp
        show ?thesis
        proof (cases def)
          case children
          with look fb "3.IH"(1) [OF look refl fb refl refl refl children keep]
          show ?thesis
            by (simp add: dispatch.simps)
        next
          case sampleDescription
          show ?thesis
          proof (cases "length body < 4")
            case True
            with look fb sampleDescription show ?thesis
              by (simp add: dispatch.simps cont trunc)
          next
            case False
            with look fb sampleDescription
              "3.IH"(2) [OF look refl fb refl refl refl sampleDescription False keep]
            show ?thesis
              by (simp add: dispatch.simps)
          qed
        next
          case (allData f)
          with keep look have "Q s (f body s)"
            by (auto simp: handlersKeep_def)
          with look fb allData show ?thesis
            by (simp add: dispatch.simps)
        next
          case (callback g)
          with keep look
          have "Q s (g \<lparr>version = v, flags = fl, reader = body, path = ancestors @ [type]\<rparr> s)"
            by (auto simp: handlersKeep_def)
          with look fb callback show ?thesis
            by (simp add: dispatch.simps)
        qed
      qed
    qed
  qed
qed

subsection \<open>Traversals with one \<open>allData\<close> rule\<close>

text \<open>
  Two parsers with one \<open>allData\<close> rule for the same type, whose callbacks do the same up
  to a function \<open>f\<close> between their closure variables, traverse a buffer alike.
\<close>

lemma parseBoxes_allData_sim:
  assumes h: "\<And>d s. h1 d (f s) = (case h2 d s of (s', out) \<Rightarrow> (f s', out))"
  shows "parseBoxes (box Mp4Parser_new n (allData h1)) partial anc scope (f s) =
           (case parseBoxes (box Mp4Parser_new n (allData h2)) partial anc scope s of
              (s', out) \<Rightarrow> (f s', out))"
proof (induction scope arbitrary: s rule: length_induct)
  case (1 scope)
  show ?case
  proof (cases "scope = [] \<or> length scope < 8")
    case True
    then show ?thesis by (simp add: parseBoxes_end)
  next
    case False
    then have len: "8 \<le> length scope" by simp
    show ?thesis
    proof (cases "readBox partial scope")
      case (Inl e)
      with len show ?thesis by (simp add: parseBoxes_Inl)
    next
      case (Inr r)
      show ?thesis
      proof (cases r)
        case None
        with Inr len show ?thesis by (simp add: parseBoxes_None)
      next
        case (Some trip)
        obtain type pl rest where trip: "trip = (type, pl, rest)"
          by (cases trip) auto
        have rb: "readBox partial scope = Inr (Some (type, pl, rest))"
          using Inr Some trip by simp
        have "length rest < length scope"
          using readBox_shorter [OF rb len] by simp
        then have IH: "\<And>s. parseBoxes (box Mp4Parser_new n (allData h1)) partial anc rest (f s) =
           (case parseBoxes (box Mp4Parser_new n (allData h2)) partial anc rest s of
              (s', out) \<Rightarrow> (f s', out))"
          using 1 by blast
        show ?thesis
        proof (cases "type = typeFromString n")
          case True
          obtain s2 out where r2: "h2 pl s = (s2, out)"
            by (cases "h2 pl s") auto
          then have r1: "h1 pl (f s) = (f s2, out)"
            by (simp add: h)
          show ?thesis
            by (cases out) (simp_all add: parseBoxes_Some [OF len rb] dispatch_allData True r1 r2 IH)
        next
          case False
          then show ?thesis
            by (simp add: parseBoxes_Some [OF len rb] dispatch_allData IH)
        qed
      qed
    qed
  qed
qed

lemma recorder_prefix:
  "parseBoxes (mdatRecorder b) partial anc scope (acc @ v) =
     (case parseBoxes (mdatRecorder b) partial anc scope v of (v', out) \<Rightarrow> (acc @ v', out))"
  unfolding mdatRecorder_def
  by (rule parseBoxes_allData_sim) simp

text \<open>Stopping at the first \<^verbatim>\<open>mdat\<close> leaves exactly the first payload of the full walk.\<close>

lemma recorder_stop_first:
  "parseBoxes (mdatRecorder False) partial anc scope acc = (acc @ m # ms, out) \<Longrightarrow>
     parseBoxes (mdatRecorder True) partial anc scope acc = (acc @ [m], Stop)"
proof (induction scope arbitrary: acc rule: length_induct)
  case (1 scope)
  note run = "1.prems"
  show ?case
  proof (cases "scope = [] \<or> length scope < 8")
    case True
    with run show ?thesis by (simp add: parseBoxes_end)
  next
    case False
    then have len: "8 \<le> length scope" by simp
    show ?thesis
    proof (cases "readBox partial scope")
      case (Inl e)
      with len run show ?thesis by (simp add: parseBoxes_Inl)
    next
      case (Inr r)
      show ?thesis
      proof (cases r)
        case None
        with Inr len run show ?thesis by (simp add: parseBoxes_None)
      next
        case (Some trip)
        obtain type pl rest where trip: "trip = (type, pl, rest)"
          by (cases trip) auto
        have rb: "readBox partial scope = Inr (Some (type, pl, rest))"
          using Inr Some trip by simp
        have shorter: "length rest < length scope"
          using readBox_shorter [OF rb len] by simp
        show ?thesis
        proof (cases "type = typeFromString ''mdat''")
          case True
          have "parseBoxes (mdatRecorder False) partial anc rest (acc @ [pl]) = (acc @ m # ms, out)"
            using run by (simp add: parseBoxes_Some [OF len rb] mdatRecorder_def dispatch_allData True)
          then have "acc @ pl # fst (parseBoxes (mdatRecorder False) partial anc rest []) = acc @ m # ms"
            using recorder_prefix [of False partial anc rest "acc @ [pl]" "[]"]
            by (cases "parseBoxes (mdatRecorder False) partial anc rest []") simp
          then have "pl = m" by simp
          then show ?thesis
            by (simp add: parseBoxes_Some [OF len rb] mdatRecorder_def dispatch_allData True)
        next
          case False
          have "parseBoxes (mdatRecorder False) partial anc rest acc = (acc @ m # ms, out)"
            using run by (simp add: parseBoxes_Some [OF len rb] mdatRecorder_def dispatch_allData False)
          then have "parseBoxes (mdatRecorder True) partial anc rest acc = (acc @ [m], Stop)"
            using 1 shorter by blast
          then show ?thesis
            by (simp add: parseBoxes_Some [OF len rb] mdatRecorder_def dispatch_allData False)
        qed
      qed
    qed
  qed
qed

lemma recorder_none:
  "parseBoxes (mdatRecorder False) partial anc scope acc = (acc, out) \<Longrightarrow>
     parseBoxes (mdatRecorder True) partial anc scope acc = (acc, out)"
proof (induction scope rule: length_induct)
  case (1 scope)
  note run = "1.prems"
  show ?case
  proof (cases "scope = [] \<or> length scope < 8")
    case True
    with run show ?thesis by (simp add: parseBoxes_end)
  next
    case False
    then have len: "8 \<le> length scope" by simp
    show ?thesis
    proof (cases "readBox partial scope")
      case (Inl e)
      with len run show ?thesis by (simp add: parseBoxes_Inl)
    next
      case (Inr r)
      show ?thesis
      proof (cases r)
        case None
        with Inr len run show ?thesis by (simp add: parseBoxes_None)
      next
        case (Some trip)
        obtain type pl rest where trip: "trip = (type, pl, rest)"
          by (cases trip) auto
        have rb: "readBox partial scope = Inr (Some (type, pl, rest))"
          using Inr Some trip by simp
        have shorter: "length rest < length scope"
          using readBox_shorter [OF rb len] by simp
        show ?thesis
        proof (cases "type = typeFromString ''mdat''")
          case True
          have "parseBoxes (mdatRecorder False) partial anc rest (acc @ [pl]) = (acc, out)"
            using run by (simp add: parseBoxes_Some [OF len rb] mdatRecorder_def dispatch_allData True)
          then have "acc @ pl # fst (parseBoxes (mdatRecorder False) partial anc rest []) = acc"
            using recorder_prefix [of False partial anc rest "acc @ [pl]" "[]"]
            by (cases "parseBoxes (mdatRecorder False) partial anc rest []") simp
          then show ?thesis by simp
        next
          case False
          have "parseBoxes (mdatRecorder False) partial anc rest acc = (acc, out)"
            using run by (simp add: parseBoxes_Some [OF len rb] mdatRecorder_def dispatch_allData False)
          then have "parseBoxes (mdatRecorder True) partial anc rest acc = (acc, out)"
            using 1 shorter by blast
          then show ?thesis
            by (simp add: parseBoxes_Some [OF len rb] mdatRecorder_def dispatch_allData False)
        qed
      qed
    qed
  qed
qed

lemma recorder_stop:
  "parse (mdatRecorder True) data partial [] =
     (case mdatsIn partial data of
        ([], out) \<Rightarrow> ([], out)
      | (m # ms, out) \<Rightarrow> ([m], Stop))"
proof -
  obtain v out where r: "mdatsIn partial data = (v, out)"
    by (cases "mdatsIn partial data") auto
  show ?thesis
  proof (cases v)
    case Nil
    with r show ?thesis
      using recorder_none [of partial "[]" data "[]" out] by (simp add: mdatsIn_def parse_def)
  next
    case (Cons m ms)
    with r show ?thesis
      using recorder_stop_first [of partial "[]" data "[]" m ms out]
      by (simp add: mdatsIn_def parse_def)
  qed
qed

lemma mdatsIn_errors: "snd (mdatsIn partial data) = Throw e \<Longrightarrow> e = TruncatedInput \<or> e = MalformedBox"
proof -
  define Q where "Q = (\<lambda>(s :: bytes list) (r :: bytes list \<times> outcome).
     snd r = Throw e \<longrightarrow> e = TruncatedInput \<or> e = MalformedBox)"
  have "Q [] (parseBoxes (mdatRecorder False) partial [] data [])"
    by (rule traversal_keeps(1) [of Q])
       (auto simp: Q_def handlersKeep_def mdatRecorder_def box_def Mp4Parser_new_def split: if_splits)
  then show "snd (mdatsIn partial data) = Throw e \<Longrightarrow> e = TruncatedInput \<or> e = MalformedBox"
    by (simp add: Q_def mdatsIn_def parse_def)
qed

subsection \<open>Reading boxes that were written as their bytes\<close>

lemma be_u32: "n < 2 ^ 32 \<Longrightarrow> be (u32 n) = n"
proof -
  assume bound: "n < 2 ^ 32"
  define q1 where "q1 = n div 256"
  define q2 where "q2 = q1 div 256"
  define q3 where "q3 = q2 div 256"
  have d1: "n div 2 ^ 8 = q1"
    by (simp add: q1_def)
  have d2: "n div 2 ^ 16 = q2"
    by (simp add: q2_def q1_def div_mult2_eq [symmetric])
  have d3: "n div 2 ^ 24 = q3"
    by (simp add: q3_def q2_def q1_def div_mult2_eq [symmetric])
  have "q3 < 256"
    using bound unfolding d3 [symmetric] by (simp add: less_mult_imp_div_less)
  then have m3: "q3 mod 256 = q3"
    by simp
  have e1: "q1 * 256 + n mod 256 = n"
    by (simp add: q1_def)
  have e2: "q2 * 256 + q1 mod 256 = q1"
    by (simp add: q2_def)
  have e3: "q3 * 256 + q2 mod 256 = q2"
    by (simp add: q3_def)
  have "be (u32 n) = ((q3 mod 256 * 256 + q2 mod 256) * 256 + q1 mod 256) * 256 + n mod 256"
    unfolding u32_def d1 d2 d3 by (simp add: be_def unat_of_nat)
  also have "\<dots> = n"
    unfolding m3 e3 e2 e1 ..
  finally show ?thesis .
qed

lemma length_u32: "length (u32 n) = 4"
  by (simp add: u32_def)

lemma length_typeFromString: "length (typeFromString type) = length type"
  by (simp add: typeFromString_def)

lemma length_boxBytes: "length (boxBytes type content) = 4 + length type + length content"
  by (simp add: boxBytes_def length_u32 length_typeFromString)

lemma readBox_boxBytes:
  assumes "length type = 4" "length content + 8 < 2 ^ 32"
  shows "readBox partial (boxBytes type content @ rest) =
           Inr (Some (typeFromString type, content, rest))"
proof -
  define scope where "scope = boxBytes type content @ rest"
  have size: "be (take 4 scope) = 8 + length content"
    using assms by (simp add: scope_def boxBytes_def length_u32 be_u32)
  have tag: "take 4 (drop 4 scope) = typeFromString type"
    using assms by (simp add: scope_def boxBytes_def length_u32 length_typeFromString)
  have len: "length scope = 8 + length content + length rest"
    using assms by (simp add: scope_def length_boxBytes)
  have pl: "take (length content) (drop 8 scope) = content"
    using assms by (simp add: scope_def boxBytes_def length_u32 length_typeFromString)
  have rest: "drop (8 + length content) scope = rest"
    using assms by (simp add: scope_def boxBytes_def length_u32 length_typeFromString)
  have "readBox partial scope = Inr (Some (typeFromString type, content, rest))"
    by (simp add: readBox_def Let_def size tag len pl rest)
  then show ?thesis
    by (simp add: scope_def)
qed

lemma parseBoxes_boxBytes:
  assumes "length type = 4" "length content + 8 < 2 ^ 32"
  shows "parseBoxes P partial anc (boxBytes type content @ rest) s =
       (case dispatch P partial anc (typeFromString type) content s of
          (s', Continue) \<Rightarrow> parseBoxes P partial anc rest s'
        | (s', Stop) \<Rightarrow> (s', Stop)
        | (s', Throw e) \<Rightarrow> (s', Throw e))"
proof -
  have "8 \<le> length (boxBytes type content @ rest)"
    by (simp add: length_boxBytes assms)
  then show ?thesis
    by (rule parseBoxes_Some) (rule readBox_boxBytes [OF assms])
qed

lemma sampleEntries_boxBytes:
  assumes "length type = 4" "length content + 8 < 2 ^ 32" "0 < count"
  shows "sampleEntries P partial anc count (boxBytes type content @ rest) s =
       (case dispatch P partial anc (typeFromString type) content s of
          (s', Continue) \<Rightarrow> sampleEntries P partial anc (count - 1) rest s'
        | (s', Stop) \<Rightarrow> (s', Stop)
        | (s', Throw e) \<Rightarrow> (s', Throw e))"
proof -
  have "8 \<le> length (boxBytes type content @ rest)"
    by (simp add: length_boxBytes assms)
  then show ?thesis
    using assms(3) readBox_boxBytes [OF assms(1,2), of partial rest]
    by (subst sampleEntries.simps) simp
qed

lemma parseBoxes_Nil: "parseBoxes P partial anc [] s = (s, Continue)"
  by (simp add: parseBoxes_end)

lemma parseBoxes_boxBytes_last:
  assumes "length type = 4" "length content + 8 < 2 ^ 32"
  shows "parseBoxes P partial anc (boxBytes type content) s =
       (case dispatch P partial anc (typeFromString type) content s of
          (s', Continue) \<Rightarrow> (s', Continue)
        | (s', Stop) \<Rightarrow> (s', Stop)
        | (s', Throw e) \<Rightarrow> (s', Throw e))"
  using parseBoxes_boxBytes [OF assms, of P partial anc "[]" s]
  by (simp add: parseBoxes_Nil split: prod.splits outcome.splits)

lemma mdatsIn_twoMdats:
  "mdatsIn partial twoMdats = ([[1, 2, 3], [4, 5]], Continue)"
  by (simp add: mdatsIn_def parse_def twoMdats_def parseBoxes_boxBytes parseBoxes_boxBytes_last
      mdatRecorder_def dispatch_allData typeFromString_def)

lemma dispatch_children:
  "P type = Some (BASIC_BOX, children) \<Longrightarrow>
     dispatch P partial anc type content s = parseBoxes P partial (anc @ [type]) content s"
  by (simp add: dispatch.simps fullBoxHeader_def)

lemma dispatch_callback:
  "P type = Some (BASIC_BOX, callback f) \<Longrightarrow>
     dispatch P partial anc type content s =
       f \<lparr>version = None, flags = None, reader = content, path = anc @ [type]\<rparr> s"
  by (simp add: dispatch.simps fullBoxHeader_def)

lemma dispatch_sampleDescription:
  assumes "P type = Some (FULL_BOX, sampleDescription)" "length vf = 4" "count < 2 ^ 32"
  shows "dispatch P partial anc type (vf @ u32 count @ entries) s =
           sampleEntries P partial (anc @ [type]) count entries s"
  using assms by (simp add: dispatch.simps fullBoxHeader_def length_u32 be_u32)

lemma sampleEntries_boxBytes_last:
  assumes "length type = 4" "length content + 8 < 2 ^ 32"
  shows "sampleEntries P partial anc (Suc 0) (boxBytes type content) s =
       (case dispatch P partial anc (typeFromString type) content s of
          (s', Continue) \<Rightarrow> (s', Continue)
        | (s', Stop) \<Rightarrow> (s', Stop)
        | (s', Throw e) \<Rightarrow> (s', Throw e))"
  using sampleEntries_boxBytes [OF assms, of "Suc 0" P partial anc "[]" s]
  by (simp add: sampleEntries.simps [of _ _ _ 0] split: prod.splits outcome.splits)

lemma parseBoxes_truncated: "parseBoxes P False anc truncated s = (s, Throw TruncatedInput)"
  by (simp add: parseBoxes_end truncated_def)

lemma readBox_overlong: "readBox False overlong = Inl MalformedBox"
  by (simp add: readBox_def overlong_def be_def)

lemma parseBoxes_overlong: "parseBoxes P False anc overlong s = (s, Throw MalformedBox)"
  by (rule parseBoxes_Inl [OF _ readBox_overlong]) (simp add: overlong_def)

lemma readBox_undersized: "readBox partial undersized = Inl MalformedBox"
  by (simp add: readBox_def undersized_def be_def)

lemma parseBoxes_undersized: "parseBoxes P partial anc undersized s = (s, Throw MalformedBox)"
  by (rule parseBoxes_Inl [OF _ readBox_undersized]) (simp add: undersized_def)


section \<open>Properties of Mp4TtmlParser\<close>

subsection \<open>The traversal of \<open>parseInit\<close>\<close>

lemma parseInit_parser_lookup:
  "parseInit_parser (typeFromString ''moov'') = Some (BASIC_BOX, children)"
  "parseInit_parser (typeFromString ''trak'') = Some (BASIC_BOX, children)"
  "parseInit_parser (typeFromString ''mdia'') = Some (BASIC_BOX, children)"
  "parseInit_parser (typeFromString ''minf'') = Some (BASIC_BOX, children)"
  "parseInit_parser (typeFromString ''stbl'') = Some (BASIC_BOX, children)"
  "parseInit_parser (typeFromString ''stsd'') = Some (FULL_BOX, sampleDescription)"
  "parseInit_parser (typeFromString ''stpp'') = Some (BASIC_BOX, callback (\<lambda>box sawSTPP. (True, Stop)))"
  by (simp_all add: parseInit_parser_def box_def fullBox_def typeFromString_def)

lemma handlersKeep_parseInit_parser:
  assumes "\<And>s. Q s (True, Stop)"
  shows "handlersKeep parseInit_parser Q"
  using assms
  by (auto simp: handlersKeep_def parseInit_parser_def box_def fullBox_def Mp4Parser_new_def
      split: if_splits)

lemma parseInit_traversal_cases:
  "parseInit_traversal data = (True, Stop)
   \<or> parseInit_traversal data = (False, Continue)
   \<or> parseInit_traversal data = (False, Throw TruncatedInput)
   \<or> parseInit_traversal data = (False, Throw MalformedBox)"
proof -
  define Q where "Q = (\<lambda>(s :: bool) r. r = (True, Stop) \<or> r = (s, Continue)
     \<or> r = (s, Throw TruncatedInput) \<or> r = (s, Throw MalformedBox))"
  have "Q False (parseBoxes parseInit_parser False [] data False)"
    by (rule traversal_keeps(1) [of Q]) (auto simp: Q_def intro!: handlersKeep_parseInit_parser)
  then show ?thesis
    by (simp add: Q_def parseInit_traversal_def parse_def)
qed

lemma parseInit_cases:
  "parseInit data = (case parseInit_traversal data of
      (_, Throw e) \<Rightarrow> Inl e
    | (_, Stop) \<Rightarrow> Inr ()
    | (_, Continue) \<Rightarrow> Inl (Error CRITICAL TEXT INVALID_MP4_TTML))"
  using parseInit_traversal_cases [of data]
  by (auto simp: parseInit_def)

lemma parse_initSegment_stpp:
  assumes "length entry + 64 < 2 ^ 32"
  shows "parse parseInit_parser (initSegment ''stpp'' entry) False False = (True, Stop)"
proof -
  let ?P = parseInit_parser
  have small: "length entry + 8 < 2 ^ 32"
    using assms by simp
  have stpp: "sampleEntries ?P False anc (Suc 0) (boxBytes ''stpp'' entry) s = (True, Stop)" for anc s
    using small by (simp add: sampleEntries_boxBytes_last dispatch_callback parseInit_parser_lookup)
  have stsd: "parseBoxes ?P False anc
                (boxBytes ''stsd'' ([0, 0, 0, 0] @ u32 1 @ boxBytes ''stpp'' entry)) s = (True, Stop)"
    for anc s
    using assms
    by (simp add: parseBoxes_boxBytes_last length_u32 length_boxBytes parseInit_parser_lookup
        dispatch_sampleDescription [where vf = "[0, 0, 0, 0]", simplified] stpp)
  have up: "parseBoxes ?P False anc (boxBytes type content) s = (True, Stop)"
    if "parseInit_parser (typeFromString type) = Some (BASIC_BOX, children)"
      and "length type = 4" and "length content + 8 < 2 ^ 32"
      and "\<And>anc s. parseBoxes ?P False anc content s = (True, Stop)"
    for anc s type content
    using that by (simp add: parseBoxes_boxBytes_last dispatch_children)
  show ?thesis
    unfolding parse_def initSegment_def
    using assms
    by (intro up stsd) (simp_all add: parseInit_parser_lookup length_boxBytes length_u32)
qed

lemma parse_initSegment_other:
  assumes "length entry + 64 < 2 ^ 32" "length type = 4"
    and "parseInit_parser (typeFromString type) = None"
  shows "parse parseInit_parser (initSegment type entry) False False = (False, Continue)"
proof -
  let ?P = parseInit_parser
  have small: "length entry + 8 < 2 ^ 32"
    using assms by simp
  have entry: "sampleEntries ?P False anc (Suc 0) (boxBytes type entry) False = (False, Continue)" for anc
    using small assms(2,3) by (simp add: sampleEntries_boxBytes_last dispatch.simps)
  have stsd: "parseBoxes ?P False anc
                (boxBytes ''stsd'' ([0, 0, 0, 0] @ u32 1 @ boxBytes type entry)) False = (False, Continue)"
    for anc
    using assms
    by (simp add: parseBoxes_boxBytes_last length_u32 length_boxBytes parseInit_parser_lookup
        dispatch_sampleDescription [where vf = "[0, 0, 0, 0]", simplified] entry)
  have up: "parseBoxes ?P False anc (boxBytes t content) False = (False, Continue)"
    if "parseInit_parser (typeFromString t) = Some (BASIC_BOX, children)"
      and "length t = 4" and "length content + 8 < 2 ^ 32"
      and "\<And>anc. parseBoxes ?P False anc content False = (False, Continue)"
    for anc t content
    using that by (simp add: parseBoxes_boxBytes_last dispatch_children)
  show ?thesis
    unfolding parse_def initSegment_def
    using assms
    by (intro up stsd) (simp_all add: parseInit_parser_lookup length_boxBytes length_u32)
qed

lemma registered_lookup:
  "registered mimeType_stpp = Some Mp4TtmlParser_class"
  "registered mimeType_stpp_TTML_im1t = Some Mp4TtmlParser_class"
  by (simp_all add: registered_def registerParser_def mimeType_stpp_def
      mimeType_stpp_TTML_im1t_def)

subsection \<open>The minimal segment, whatever its entry\<close>

lemma outcome_case_id:
  "(case r of (s', Continue) \<Rightarrow> (s', Continue) | (s', Stop) \<Rightarrow> (s', Stop)
      | (s', Throw e) \<Rightarrow> (s', Throw e)) = r"
  by (cases r; cases "snd r") auto

lemma parseBoxes_single:
  assumes "length type = 4" "length content + 8 < 2 ^ 32"
  shows "parseBoxes P partial anc (boxBytes type content) s
           = dispatch P partial anc (typeFromString type) content s"
  by (simp only: parseBoxes_boxBytes_last [OF assms] outcome_case_id)

lemma sampleEntries_single:
  assumes "length type = 4" "length content + 8 < 2 ^ 32"
  shows "sampleEntries P partial anc (Suc 0) (boxBytes type content) s
           = dispatch P partial anc (typeFromString type) content s"
  by (simp only: sampleEntries_boxBytes_last [OF assms] outcome_case_id)

text \<open>
  The traversal of the minimal segment comes down to the dispatch on the tag of its one
  entry, at the end of the chain.
\<close>

lemma parse_initSegment:
  assumes "length tag = 4" "length entry + 64 < 2 ^ 32"
  shows "parse parseInit_parser (initSegment tag entry) False s =
           dispatch parseInit_parser False
             (map typeFromString [''moov'', ''trak'', ''mdia'', ''minf'', ''stbl'', ''stsd''])
             (typeFromString tag) entry s"
  unfolding parse_def initSegment_def
  using assms
  by (simp add: parseBoxes_single sampleEntries_single dispatch_children parseInit_parser_lookup
      dispatch_sampleDescription [where vf = "[0, 0, 0, 0]", simplified]
      length_boxBytes length_u32)

lemma dispatch_empty_entry:
  "type \<noteq> typeFromString ''stpp'' \<Longrightarrow>
     dispatch parseInit_parser False anc type [] False = (False, Continue)
     \<or> dispatch parseInit_parser False anc type [] False = (False, Throw TruncatedInput)"
  by (auto simp: dispatch.simps parseInit_parser_def box_def fullBox_def Mp4Parser_new_def
      fullBoxHeader_def parseBoxes_Nil)

lemma unat_of_char: "unat (of_char c :: byte) = of_char c"
proof -
  have "(of_char c :: byte) = of_nat (of_char c)"
    by (simp only: of_nat_of_char)
  then have "unat (of_char c :: byte) = (of_char c :: nat) mod 2 ^ 8"
    by (simp add: unat_of_nat)
  then show ?thesis
    by simp
qed

lemma typeFromString_inj: "typeFromString a = typeFromString b \<Longrightarrow> a = b"
proof -
  have "inj (of_char :: char \<Rightarrow> byte)"
  proof (rule injI)
    fix c d :: char
    assume "(of_char c :: byte) = of_char d"
    then have "unat (of_char c :: byte) = unat (of_char d :: byte)"
      by simp
    then show "c = d"
      by (simp add: unat_of_char)
  qed
  then show "typeFromString a = typeFromString b \<Longrightarrow> a = b"
    unfolding typeFromString_def by (rule map_injective [rotated])
qed

lemma parseInit_initSegment_other_tag:
  assumes "length tag = 4" "tag \<noteq> ''stpp''"
  shows "parseInit (initSegment tag []) \<noteq> Inr ()"
proof -
  have "typeFromString tag \<noteq> typeFromString ''stpp''"
    using assms(2) typeFromString_inj by blast
  from dispatch_empty_entry [OF this]
  have "parseInit_traversal (initSegment tag []) = (False, Continue)
      \<or> parseInit_traversal (initSegment tag []) = (False, Throw TruncatedInput)"
    by (simp add: parseInit_traversal_def parse_initSegment assms(1))
  then show ?thesis
    by (auto simp: parseInit_cases)
qed

subsection \<open>Containers in general\<close>

text \<open>Entries of unregistered types are read and passed over, one count each.\<close>

lemma otherEntries_passed:
  "otherEntries k entries \<Longrightarrow>
     sampleEntries parseInit_parser partial anc (k + n) (entries @ rest) s
       = sampleEntries parseInit_parser partial anc n rest s"
proof (induction k entries rule: otherEntries.induct)
  case none
  show ?case by simp
next
  case (more type content k entries)
  have "sampleEntries parseInit_parser partial anc (Suc k + n)
          (boxBytes type content @ entries @ rest) s
        = sampleEntries parseInit_parser partial anc (k + n) (entries @ rest) s"
    using more.hyps(1) by (simp add: otherBox_def sampleEntries_boxBytes dispatch.simps)
  with more.IH show ?case
    by simp
qed

text \<open>
  A sequence of boxes in which there is no \<^verbatim>\<open>stpp\<close> is walked to its end: the traversal
  goes on behind it with \<open>sawSTPP\<close> as it was.
\<close>

lemma noSubtitle_passed:
  "noSubtitle scope \<Longrightarrow>
     parseBoxes parseInit_parser partial anc (scope @ rest) s
       = parseBoxes parseInit_parser partial anc rest s"
proof (induction scope arbitrary: anc rest rule: noSubtitle.induct)
  case empty
  show ?case by simp
next
  case (other type content scope)
  then show ?case
    by (simp add: otherBox_def parseBoxes_boxBytes dispatch.simps)
next
  case (inside type content scope)
  have "dispatch parseInit_parser partial anc (typeFromString type) content s = (s, Continue)"
    using inside.hyps(1) inside.IH(1) [of "anc @ [typeFromString type]" "[]"]
    by (simp add: chainBox_def dispatch_children parseBoxes_Nil)
  with inside.hyps(1) inside.IH(2) show ?case
    by (simp add: chainBox_def parseBoxes_boxBytes)
next
  case (descriptions vf count entries unread scope)
  have "sampleEntries parseInit_parser partial (anc @ [typeFromString ''stsd''])
          (count + 0) (entries @ unread) s
        = sampleEntries parseInit_parser partial (anc @ [typeFromString ''stsd'']) 0 unread s"
    by (rule otherEntries_passed [OF descriptions.hyps(3)])
  then have "dispatch parseInit_parser partial anc (typeFromString ''stsd'')
               (vf @ u32 count @ entries @ unread) s = (s, Continue)"
    using descriptions.hyps(1,2)
    by (simp add: dispatch_sampleDescription parseInit_parser_lookup
        sampleEntries.simps [of _ _ _ 0])
  with descriptions.hyps(1,4) descriptions.IH show ?case
    by (simp add: parseBoxes_boxBytes length_u32)
qed

text \<open>
  In a scope that declares an \<^verbatim>\<open>stpp\<close> entry under a chain, the traversal reaches the
  entry, whose handler sets \<open>sawSTPP\<close> and stops the parser.
\<close>

lemma declares_stpp:
  "declares chain tag scope \<Longrightarrow> tag = ''stpp'' \<Longrightarrow>
     parseBoxes parseInit_parser partial anc scope s = (True, Stop)"
proof (induction chain tag scope arbitrary: anc rule: declares.induct)
  case (description before vf count k earlier tag entry later behind)
  let ?path = "anc @ [typeFromString ''stsd'']"
  from \<open>k < count\<close> obtain n where count: "count = k + Suc n"
    using less_imp_Suc_add by auto
  have "sampleEntries parseInit_parser partial ?path (k + Suc n)
          (earlier @ boxBytes tag entry @ later) s
        = sampleEntries parseInit_parser partial ?path (Suc n) (boxBytes tag entry @ later) s"
    by (rule otherEntries_passed [OF description.hyps(4)])
  also have "\<dots> = (True, Stop)"
    using description.hyps(7) description.prems
    by (simp add: sampleEntries_boxBytes dispatch_callback parseInit_parser_lookup)
  finally have "dispatch parseInit_parser partial anc (typeFromString ''stsd'')
                  (vf @ u32 count @ earlier @ boxBytes tag entry @ later) s = (True, Stop)"
    using description.hyps(2,3)
    by (simp add: dispatch_sampleDescription parseInit_parser_lookup count)
  then have "parseBoxes parseInit_parser partial anc
               (boxBytes ''stsd'' (vf @ u32 count @ earlier @ boxBytes tag entry @ later) @ behind) s
             = (True, Stop)"
    using description.hyps(2,6,7)
    by (simp add: parseBoxes_boxBytes length_u32 length_boxBytes)
  then show ?case
    by (simp add: noSubtitle_passed [OF description.hyps(1)])
next
  case (under before type content chain tag behind)
  have "dispatch parseInit_parser partial anc (typeFromString type) content s = (True, Stop)"
    using under.hyps(2) under.IH [OF under.prems, of "anc @ [typeFromString type]"]
    by (simp add: chainBox_def dispatch_children)
  then have "parseBoxes parseInit_parser partial anc (boxBytes type content @ behind) s
             = (True, Stop)"
    using under.hyps(2) by (simp add: chainBox_def parseBoxes_boxBytes)
  then show ?case
    by (simp add: noSubtitle_passed [OF under.hyps(1)])
qed

lemma declares_accepted:
  "declares chain ''stpp'' data \<Longrightarrow> parseInit data = Inr ()"
  using declares_stpp [of chain "''stpp''" data False "[]" False]
  by (simp add: parseInit_cases parseInit_traversal_def parse_def)

lemma noSubtitle_rejected:
  "noSubtitle data \<Longrightarrow> parseInit data = Inl (Error CRITICAL TEXT INVALID_MP4_TTML)"
  using noSubtitle_passed [of data False "[]" "[]" False]
  by (simp add: parseInit_cases parseInit_traversal_def parse_def parseBoxes_Nil)

subsection \<open>The segment with boxes around the chain\<close>

lemma otherBox_around:
  assumes "length content + 8 < 2 ^ 32"
  shows "otherBox ''ftyp'' content" "otherBox ''mvhd'' content" "otherBox ''tkhd'' content"
    "otherBox ''mdhd'' content" "otherBox ''hdlr'' content" "otherBox ''sthd'' content"
    "otherBox ''stts'' content" "otherBox ''mvex'' content" "otherBox ''wvtt'' content"
  using assms
  by (simp_all add: otherBox_def parseInit_parser_def box_def fullBox_def Mp4Parser_new_def
      typeFromString_def)

lemma noSubtitle_one: "otherBox type content \<Longrightarrow> noSubtitle (boxBytes type content)"
  using noSubtitle.other [OF _ noSubtitle.empty, of type content] by simp

lemma noSubtitle_two:
  "otherBox type content \<Longrightarrow> otherBox type' content' \<Longrightarrow>
     noSubtitle (boxBytes type content @ boxBytes type' content')"
  by (rule noSubtitle.other [OF _ noSubtitle_one])

lemma chainBox_chain:
  assumes "length content + 8 < 2 ^ 32"
  shows "chainBox ''moov'' content" "chainBox ''trak'' content" "chainBox ''mdia'' content"
    "chainBox ''minf'' content" "chainBox ''stbl'' content"
  using assms by (simp_all add: chainBox_def parseInit_parser_lookup)

lemma declares_textSegment:
  assumes "length tag = 4" "length entry + 256 < 2 ^ 32"
  shows "declares [''moov'', ''trak'', ''mdia'', ''minf'', ''stbl'', ''stsd''] tag
           (textSegment tag entry)"
proof -
  let ?stsd = "boxBytes ''stsd'' ([0, 0, 0, 0] @ u32 1 @ boxBytes tag entry)"
  let ?stbl = "?stsd @ boxBytes ''stts'' [0, 0, 0, 0, 0, 0, 0, 0]"
  let ?minf = "boxBytes ''sthd'' [0, 0, 0, 0] @ boxBytes ''stbl'' ?stbl"
  let ?mdia = "boxBytes ''mdhd'' [0, 0, 0, 0] @ boxBytes ''hdlr'' (typeFromString ''subt'')
                 @ boxBytes ''minf'' ?minf"
  let ?trak = "boxBytes ''tkhd'' [0, 0, 0, 7] @ boxBytes ''mdia'' ?mdia"
  let ?moov = "boxBytes ''mvhd'' [0, 0, 0, 0] @ boxBytes ''trak'' ?trak @ boxBytes ''mvex'' []"
  have "declares [''stsd''] tag
          ([] @ boxBytes ''stsd'' ([0, 0, 0, 0] @ u32 1 @ [] @ boxBytes tag entry @ [])
             @ boxBytes ''stts'' [0, 0, 0, 0, 0, 0, 0, 0])"
    using assms
    by (intro declares.description [where k = 0] noSubtitle.empty otherEntries.none) simp_all
  then have stbl: "declares [''stsd''] tag ?stbl"
    by simp
  have "declares [''stbl'', ''stsd''] tag (boxBytes ''sthd'' [0, 0, 0, 0] @ boxBytes ''stbl'' ?stbl @ [])"
    using assms
    by (intro declares.under stbl noSubtitle_one otherBox_around chainBox_chain)
       (simp_all add: length_boxBytes length_u32)
  then have minf: "declares [''stbl'', ''stsd''] tag ?minf"
    by simp
  have "declares [''minf'', ''stbl'', ''stsd''] tag
          ((boxBytes ''mdhd'' [0, 0, 0, 0] @ boxBytes ''hdlr'' (typeFromString ''subt''))
             @ boxBytes ''minf'' ?minf @ [])"
    using assms
    by (intro declares.under minf noSubtitle_two otherBox_around chainBox_chain)
       (simp_all add: length_boxBytes length_u32 length_typeFromString)
  then have mdia: "declares [''minf'', ''stbl'', ''stsd''] tag ?mdia"
    by simp
  have "declares [''mdia'', ''minf'', ''stbl'', ''stsd''] tag
          (boxBytes ''tkhd'' [0, 0, 0, 7] @ boxBytes ''mdia'' ?mdia @ [])"
    using assms
    by (intro declares.under mdia noSubtitle_one otherBox_around chainBox_chain)
       (simp_all add: length_boxBytes length_u32 length_typeFromString)
  then have trak: "declares [''mdia'', ''minf'', ''stbl'', ''stsd''] tag ?trak"
    by simp
  have moov: "declares [''trak'', ''mdia'', ''minf'', ''stbl'', ''stsd''] tag ?moov"
    using assms
    by (intro declares.under trak noSubtitle_one otherBox_around chainBox_chain)
       (simp_all add: length_boxBytes length_u32 length_typeFromString)
  have "declares [''moov'', ''trak'', ''mdia'', ''minf'', ''stbl'', ''stsd''] tag
          (boxBytes ''ftyp'' (typeFromString ''iso6'') @ boxBytes ''moov'' ?moov @ [])"
    using assms
    by (intro declares.under moov noSubtitle_one otherBox_around chainBox_chain)
       (simp_all add: length_boxBytes length_u32 length_typeFromString)
  then show ?thesis
    by (simp add: textSegment_def)
qed

lemma noSubtitle_textSegment:
  assumes "otherBox tag entry" "length entry + 256 < 2 ^ 32"
  shows "noSubtitle (textSegment tag entry)"
proof -
  let ?stsd = "boxBytes ''stsd'' ([0, 0, 0, 0] @ u32 1 @ boxBytes tag entry)"
  let ?stbl = "?stsd @ boxBytes ''stts'' [0, 0, 0, 0, 0, 0, 0, 0]"
  let ?minf = "boxBytes ''sthd'' [0, 0, 0, 0] @ boxBytes ''stbl'' ?stbl"
  let ?mdia = "boxBytes ''mdhd'' [0, 0, 0, 0] @ boxBytes ''hdlr'' (typeFromString ''subt'')
                 @ boxBytes ''minf'' ?minf"
  let ?trak = "boxBytes ''tkhd'' [0, 0, 0, 7] @ boxBytes ''mdia'' ?mdia"
  let ?moov = "boxBytes ''mvhd'' [0, 0, 0, 0] @ boxBytes ''trak'' ?trak @ boxBytes ''mvex'' []"
  have tag: "length tag = 4"
    using assms(1) by (simp add: otherBox_def)
  have entries: "otherEntries (Suc 0) (boxBytes tag entry)"
    using otherEntries.more [OF assms(1) otherEntries.none] by simp
  have "noSubtitle (boxBytes ''stsd'' ([0, 0, 0, 0] @ u32 1 @ boxBytes tag entry @ [])
          @ boxBytes ''stts'' [0, 0, 0, 0, 0, 0, 0, 0])"
    using assms(2) tag
    by (intro noSubtitle.descriptions noSubtitle_one otherBox_around)
       (simp_all add: entries length_boxBytes)
  then have stbl: "noSubtitle ?stbl"
    by simp
  have one: "noSubtitle (boxBytes type content)"
    if "chainBox type content" "noSubtitle content" for type content
    using noSubtitle.inside [OF that noSubtitle.empty] by simp
  have minf: "noSubtitle ?minf"
    using assms(2) tag
    by (intro noSubtitle.other one stbl otherBox_around chainBox_chain)
       (simp_all add: length_boxBytes length_u32)
  have mdia: "noSubtitle ?mdia"
    using assms(2) tag
    by (intro noSubtitle.other one minf otherBox_around chainBox_chain)
       (simp_all add: length_boxBytes length_u32 length_typeFromString)
  have trak: "noSubtitle ?trak"
    using assms(2) tag
    by (intro noSubtitle.other one mdia otherBox_around chainBox_chain)
       (simp_all add: length_boxBytes length_u32 length_typeFromString)
  have moov: "noSubtitle ?moov"
    using assms(2) tag
    by (intro noSubtitle.other noSubtitle.inside trak noSubtitle_one otherBox_around chainBox_chain)
       (simp_all add: length_boxBytes length_u32 length_typeFromString)
  have "noSubtitle (boxBytes ''ftyp'' (typeFromString ''iso6'') @ boxBytes ''moov'' ?moov)"
    using assms(2) tag
    by (intro noSubtitle.other one moov otherBox_around chainBox_chain)
       (simp_all add: length_boxBytes length_u32 length_typeFromString)
  then show ?thesis
    by (simp add: textSegment_def)
qed

subsection \<open>The traversal of \<open>parseMediaInternal_\<close>\<close>

lemma mdatCallback_handedOver:
  "mdatCallback this time partial d (handedOver this time partial v) =
     (handedOver this time partial (v @ [d]), if partial then Stop else Continue)"
  by (simp add: mdatCallback_def handedOver_def)

lemma parseMedia_traversal_recorded:
  "parseMedia_traversal this data time partial =
     (case parse (mdatRecorder partial) data partial [] of
        (visited, out) \<Rightarrow> (handedOver this time partial visited, out))"
proof -
  have start: "\<lparr>sawMDAT = False, payload = [], parserCalls = []\<rparr> = handedOver this time partial []"
    by (simp add: handedOver_def)
  show ?thesis
    unfolding parseMedia_traversal_def parseMedia_parser_def parse_def start mdatRecorder_def
    by (rule parseBoxes_allData_sim) (simp add: mdatCallback_handedOver)
qed

lemma parseMediaInternal_recorded:
  "parseMediaInternal' this data time partial =
     (case parse (mdatRecorder partial) data partial [] of
        (visited, out) \<Rightarrow>
          ((case out of
              Throw e \<Rightarrow> Inl e
            | _ \<Rightarrow> if visited = [] then Inl (Error CRITICAL TEXT INVALID_MP4_TTML)
                   else Inr (payload (handedOver this time partial visited))),
           parserCalls (handedOver this time partial visited)))"
  by (cases "parse (mdatRecorder partial) data partial []";
      cases "snd (parse (mdatRecorder partial) data partial [])")
     (simp_all add: parseMediaInternal'_def parseMedia_traversal_recorded handedOver_def)

lemma parseMedia_recorded:
  "parseMedia this data time =
     (case mdatsIn False data of
        (visited, out) \<Rightarrow>
          ((case out of
              Throw e \<Rightarrow> Inl e
            | _ \<Rightarrow> if visited = [] then Inl (Error CRITICAL TEXT INVALID_MP4_TTML)
                   else Inr (concat (map (\<lambda>data. TextParser_parseMedia (parser' this) data time)
                                        visited))),
           map (\<lambda>data. ParseMedia data time) visited))"
  by (simp add: parseMedia_def parseMediaInternal_recorded mdatsIn_def handedOver_def
      split: prod.splits outcome.splits)

lemma parseFirstCue_recorded:
  "parseFirstCue this data time =
     (case mdatsIn True data of
        ([], Throw e) \<Rightarrow> (Inl e, [])
      | ([], _) \<Rightarrow> (Inl (Error CRITICAL TEXT INVALID_MP4_TTML), [])
      | (m # ms, out) \<Rightarrow>
          (Inr (Value (TextParser_parseFirstCue (parser' this) m time)), [ParseFirstCue m time]))"
  by (simp add: parseFirstCue_def parseMediaInternal_recorded recorder_stop handedOver_def
      split: prod.splits list.splits outcome.splits)

lemma parseMedia_traversal_errors:
  "snd (parseMedia_traversal this data time partial) = Throw e \<Longrightarrow>
     e = TruncatedInput \<or> e = MalformedBox"
proof -
  define Q where "Q = (\<lambda>(s :: ('a, 'b) mediaClosure) (r :: ('a, 'b) mediaClosure \<times> outcome).
     snd r = Throw e \<longrightarrow> e = TruncatedInput \<or> e = MalformedBox)"
  have "Q c (parseBoxes (parseMedia_parser this time partial) partial [] data c)" for c
    by (rule traversal_keeps(1) [of Q])
       (auto simp: Q_def handlersKeep_def parseMedia_parser_def box_def Mp4Parser_new_def
          mdatCallback_def Let_def split: if_splits)
  then show "snd (parseMedia_traversal this data time partial) = Throw e \<Longrightarrow>
     e = TruncatedInput \<or> e = MalformedBox"
    by (simp add: Q_def parseMedia_traversal_def parse_def)
qed

subsection \<open>The claims\<close>

text \<open>
  Claim C4. \<open>parseMedia\<close> hands every \<^verbatim>\<open>mdat\<close> payload that the traversal of the whole
  buffer meets to \<open>parseMedia\<close> of the text parser, in the order met (the calls), and,
  when the traversal does not throw and met at least one, returns the decoded cues
  concatenated in that order.
\<close>

theorem parseMedia_all_mdats:
  "parseMedia this data time =
     (case mdatsIn False data of
        (visited, out) \<Rightarrow>
          ((case out of
              Throw e \<Rightarrow> Inl e
            | _ \<Rightarrow> if visited = [] then Inl (Error CRITICAL TEXT INVALID_MP4_TTML)
                   else Inr (concat (map (\<lambda>data. TextParser_parseMedia (parser' this) data time)
                                        visited))),
           map (\<lambda>data. ParseMedia data time) visited))"
  by (rule parseMedia_recorded)

theorem parseMedia_all_mdats_witness:
  "parseMedia stubMp4TtmlParser twoMdats 7 =
     (Inr [(7, [1]), (7, [2]), (7, [3]), (7, [4]), (7, [5])],
      [ParseMedia [1, 2, 3] 7, ParseMedia [4, 5] 7])"
  by (subst parseMedia_all_mdats) (simp add: mdatsIn_twoMdats stubMp4TtmlParser_def stubParser_def)

text \<open>
  Claim C3. In a buffer in which a full traversal in partial mode meets the \<^verbatim>\<open>mdat\<close>
  payloads \<open>m # ms\<close> (two or more when \<open>ms\<close> is not empty), \<open>parseFirstCue\<close> stops the
  traversal at the first: the traversal ends with \<open>Stop\<close>, the only call to the text
  parser is \<open>parseFirstCue\<close> on \<open>m\<close>, the payloads \<open>ms\<close> are never visited, and the value
  returned is the cue decoded from \<open>m\<close>.
\<close>

theorem parseFirstCue_first_mdat_only:
  assumes "mdatsIn True data = (m # ms, out)"
  shows "parse (mdatRecorder True) data True [] = ([m], Stop)
     \<and> snd (parseMedia_traversal this data time True) = Stop
     \<and> parserCalls (fst (parseMedia_traversal this data time True)) = [ParseFirstCue m time]
     \<and> parseFirstCue this data time =
         (Inr (Value (TextParser_parseFirstCue (parser' this) m time)), [ParseFirstCue m time])"
  using assms
  by (simp add: recorder_stop parseMedia_traversal_recorded parseFirstCue_recorded handedOver_def)

theorem parseFirstCue_first_mdat_only_witness:
  "mdatsIn True twoMdats = ([1, 2, 3] # [[4, 5]], Continue)
   \<and> parse (mdatRecorder True) twoMdats True [] = ([[1, 2, 3]], Stop)
   \<and> parseFirstCue stubMp4TtmlParser twoMdats 7 =
         (Inr (Value (7, [1])), [ParseFirstCue [1, 2, 3] 7])"
proof -
  have h: "mdatsIn True twoMdats = ([1, 2, 3] # [[4, 5]], Continue)"
    by (simp add: mdatsIn_twoMdats)
  show ?thesis
    using h parseFirstCue_first_mdat_only [of twoMdats "[1, 2, 3]" "[[4, 5]]" Continue stubMp4TtmlParser 7]
    by (simp add: stubMp4TtmlParser_def stubParser_def)
qed

text \<open>
  Claim C2, as the code has it. \<open>parseInit\<close> throws \<^verbatim>\<open>INVALID_MP4_TTML\<close> exactly when its
  traversal ran to the end of the buffer without throwing and \<open>sawSTPP\<close> is still false,
  and it succeeds exactly when the traversal was stopped at an \<^verbatim>\<open>stpp\<close> entry.
  \<open>parseMedia\<close> and \<open>parseFirstCue\<close> throw it exactly when the traversal of the buffer
  in their mode met no \<^verbatim>\<open>mdat\<close> and did not throw; they return a value exactly when it
  met one (and, for \<open>parseMedia\<close>, did not throw afterwards). When the traversal throws
  before the required box is seen, the caller gets the error it threw.
\<close>

theorem invalid_container_iff:
  "(parseInit data = Inl (Error CRITICAL TEXT INVALID_MP4_TTML)
      \<longleftrightarrow> parseInit_traversal data = (False, Continue))
   \<and> (parseInit data = Inr () \<longleftrightarrow> parseInit_traversal data = (True, Stop))
   \<and> (fst (parseMedia this data time) = Inl (Error CRITICAL TEXT INVALID_MP4_TTML)
      \<longleftrightarrow> fst (mdatsIn False data) = [] \<and> \<not> is_Throw (snd (mdatsIn False data)))
   \<and> ((\<exists>cues. fst (parseMedia this data time) = Inr cues)
      \<longleftrightarrow> fst (mdatsIn False data) \<noteq> [] \<and> \<not> is_Throw (snd (mdatsIn False data)))
   \<and> (fst (parseFirstCue this data time) = Inl (Error CRITICAL TEXT INVALID_MP4_TTML)
      \<longleftrightarrow> fst (mdatsIn True data) = [] \<and> \<not> is_Throw (snd (mdatsIn True data)))
   \<and> ((\<exists>cue. fst (parseFirstCue this data time) = Inr cue)
      \<longleftrightarrow> fst (mdatsIn True data) \<noteq> [])
   \<and> (snd (parseInit_traversal data) = Throw e \<longrightarrow> parseInit data = Inl e)
   \<and> (snd (mdatsIn False data) = Throw e \<longrightarrow> fst (parseMedia this data time) = Inl e)
   \<and> (fst (mdatsIn True data) = [] \<and> snd (mdatsIn True data) = Throw e
      \<longrightarrow> fst (parseFirstCue this data time) = Inl e)"
proof -
  have thrown: "(snd (parseInit_traversal data) = Throw e \<longrightarrow> parseInit data = Inl e)
   \<and> (snd (mdatsIn False data) = Throw e \<longrightarrow> fst (parseMedia this data time) = Inl e)
   \<and> (fst (mdatsIn True data) = [] \<and> snd (mdatsIn True data) = Throw e
      \<longrightarrow> fst (parseFirstCue this data time) = Inl e)"
    by (cases "parseInit_traversal data"; cases "mdatsIn False data"; cases "mdatsIn True data")
       (simp add: parseInit_cases parseMedia_recorded parseFirstCue_recorded)
  have init: "(parseInit data = Inl (Error CRITICAL TEXT INVALID_MP4_TTML)
      \<longleftrightarrow> parseInit_traversal data = (False, Continue))
   \<and> (parseInit data = Inr () \<longleftrightarrow> parseInit_traversal data = (True, Stop))"
    using parseInit_traversal_cases [of data] by (auto simp: parseInit_cases)
  have media: "(fst (parseMedia this data time) = Inl (Error CRITICAL TEXT INVALID_MP4_TTML)
      \<longleftrightarrow> fst (mdatsIn False data) = [] \<and> \<not> is_Throw (snd (mdatsIn False data)))
   \<and> ((\<exists>cues. fst (parseMedia this data time) = Inr cues)
      \<longleftrightarrow> fst (mdatsIn False data) \<noteq> [] \<and> \<not> is_Throw (snd (mdatsIn False data)))"
    using mdatsIn_errors [of False data]
    by (cases "mdatsIn False data"; cases "snd (mdatsIn False data)")
       (auto simp: parseMedia_recorded)
  have first: "(fst (parseFirstCue this data time) = Inl (Error CRITICAL TEXT INVALID_MP4_TTML)
      \<longleftrightarrow> fst (mdatsIn True data) = [] \<and> \<not> is_Throw (snd (mdatsIn True data)))
   \<and> ((\<exists>cue. fst (parseFirstCue this data time) = Inr cue)
      \<longleftrightarrow> fst (mdatsIn True data) \<noteq> [])"
    using mdatsIn_errors [of True data]
    by (cases "mdatsIn True data"; cases "snd (mdatsIn True data)"; cases "fst (mdatsIn True data)")
       (auto simp: parseFirstCue_recorded)
  from init media first thrown show ?thesis
    by blast
qed

theorem invalid_container_iff_witness:
  "parseInit (initSegment ''mp4a'' [1, 2]) = Inl (Error CRITICAL TEXT INVALID_MP4_TTML)
   \<and> parseInit (initSegment ''stpp'' [1, 2]) = Inr ()
   \<and> fst (parseMedia stubMp4TtmlParser (boxBytes ''free'' [9]) 7)
       = Inl (Error CRITICAL TEXT INVALID_MP4_TTML)
   \<and> fst (parseFirstCue stubMp4TtmlParser (boxBytes ''free'' [9]) 7)
       = Inl (Error CRITICAL TEXT INVALID_MP4_TTML)
   \<and> parseInit undersized = Inl MalformedBox
   \<and> fst (parseMedia stubMp4TtmlParser undersized 7) = Inl MalformedBox
   \<and> fst (parseFirstCue stubMp4TtmlParser undersized 7) = Inl MalformedBox"
proof -
  have t: "snd (parseInit_traversal undersized) = Throw MalformedBox"
    by (simp add: parseInit_traversal_def parse_def parseBoxes_undersized)
  have u: "mdatsIn partial undersized = ([], Throw MalformedBox)" for partial
    by (simp add: mdatsIn_def parse_def parseBoxes_undersized)
  have thrown: "parseInit undersized = Inl MalformedBox
   \<and> fst (parseMedia stubMp4TtmlParser undersized 7) = Inl MalformedBox
   \<and> fst (parseFirstCue stubMp4TtmlParser undersized 7) = Inl MalformedBox"
    using t u [of True] u [of False]
      invalid_container_iff [of undersized stubMp4TtmlParser 7 MalformedBox]
    by simp
  have a: "parseInit_traversal (initSegment ''mp4a'' [1, 2]) = (False, Continue)"
    unfolding parseInit_traversal_def
    by (rule parse_initSegment_other)
       (simp_all add: parseInit_parser_def box_def fullBox_def Mp4Parser_new_def typeFromString_def)
  have b: "parseInit_traversal (initSegment ''stpp'' [1, 2]) = (True, Stop)"
    unfolding parseInit_traversal_def by (rule parse_initSegment_stpp) simp
  have c: "mdatsIn partial (boxBytes ''free'' [9]) = ([], Continue)" for partial
    by (simp add: mdatsIn_def parse_def parseBoxes_boxBytes_last mdatRecorder_def dispatch_allData
        typeFromString_def)
  have seen: "parseInit (initSegment ''mp4a'' [1, 2]) = Inl (Error CRITICAL TEXT INVALID_MP4_TTML)
   \<and> parseInit (initSegment ''stpp'' [1, 2]) = Inr ()
   \<and> fst (parseMedia stubMp4TtmlParser (boxBytes ''free'' [9]) 7)
       = Inl (Error CRITICAL TEXT INVALID_MP4_TTML)
   \<and> fst (parseFirstCue stubMp4TtmlParser (boxBytes ''free'' [9]) 7)
       = Inl (Error CRITICAL TEXT INVALID_MP4_TTML)"
    using a b c [of True] c [of False]
      invalid_container_iff [of "initSegment ''mp4a'' [1, 2]" stubMp4TtmlParser 7]
      invalid_container_iff [of "initSegment ''stpp'' [1, 2]" stubMp4TtmlParser 7]
      invalid_container_iff [of "boxBytes ''free'' [9]" stubMp4TtmlParser 7]
    by simp
  from seen thrown show ?thesis
    by simp
qed

text \<open>
  A traversal that throws before the required box is seen: for the truncated buffer
  neither an \<^verbatim>\<open>stpp\<close> entry nor an \<^verbatim>\<open>mdat\<close> is seen, and what the caller gets is
  \<open>TruncatedInput\<close>, not \<^verbatim>\<open>INVALID_MP4_TTML\<close>.
\<close>

theorem invalid_container_truncated_counterexample:
  "parseInit_traversal truncated = (False, Throw TruncatedInput)
   \<and> parseInit truncated = Inl TruncatedInput
   \<and> parseInit truncated \<noteq> Inl (Error CRITICAL TEXT INVALID_MP4_TTML)
   \<and> mdatsIn False truncated = ([], Throw TruncatedInput)
   \<and> fst (parseMedia stubMp4TtmlParser truncated 7) = Inl TruncatedInput
   \<and> fst (parseMedia stubMp4TtmlParser truncated 7) \<noteq> Inl (Error CRITICAL TEXT INVALID_MP4_TTML)"
  by (simp add: parseInit_cases parseInit_traversal_def mdatsIn_def parse_def parseBoxes_truncated
      parseMedia_recorded)

text \<open>
  Claim C8. An entry point throws \<open>e\<close> exactly when its traversal threw \<open>e\<close>, or \<open>e\<close> is
  \<^verbatim>\<open>INVALID_MP4_TTML\<close> and the traversal did not throw and left the flag for the required
  box false; \<open>parseFirstCue\<close> and \<open>parseMedia\<close> throw what \<open>parseMediaInternal_\<close> throws.
  What a traversal throws is \<open>TruncatedInput\<close> or \<open>MalformedBox\<close>, so the error the entry
  points add is none of the traversal's.
\<close>

theorem traversal_errors_propagate:
  "(parseInit data = Inl e \<longleftrightarrow>
      snd (parseInit_traversal data) = Throw e
      \<or> (e = Error CRITICAL TEXT INVALID_MP4_TTML \<and> parseInit_traversal data = (False, Continue)))
   \<and> (fst (parseMediaInternal' this data time partial) = Inl e \<longleftrightarrow>
      snd (parseMedia_traversal this data time partial) = Throw e
      \<or> (e = Error CRITICAL TEXT INVALID_MP4_TTML
          \<and> \<not> is_Throw (snd (parseMedia_traversal this data time partial))
          \<and> \<not> sawMDAT (fst (parseMedia_traversal this data time partial))))
   \<and> (fst (parseFirstCue this data time) = Inl e \<longleftrightarrow>
        fst (parseMediaInternal' this data time True) = Inl e)
   \<and> (fst (parseMedia this data time) = Inl e \<longleftrightarrow>
        fst (parseMediaInternal' this data time False) = Inl e)
   \<and> (snd (parseInit_traversal data) = Throw e
        \<or> snd (parseMedia_traversal this data time partial) = Throw e
      \<longrightarrow> e = TruncatedInput \<or> e = MalformedBox)"
proof -
  have init: "parseInit data = Inl e \<longleftrightarrow>
      snd (parseInit_traversal data) = Throw e
      \<or> (e = Error CRITICAL TEXT INVALID_MP4_TTML \<and> parseInit_traversal data = (False, Continue))"
    using parseInit_traversal_cases [of data] by (auto simp: parseInit_cases)
  have media: "fst (parseMediaInternal' this data time partial) = Inl e \<longleftrightarrow>
      snd (parseMedia_traversal this data time partial) = Throw e
      \<or> (e = Error CRITICAL TEXT INVALID_MP4_TTML
          \<and> \<not> is_Throw (snd (parseMedia_traversal this data time partial))
          \<and> \<not> sawMDAT (fst (parseMedia_traversal this data time partial)))"
    using parseMedia_traversal_errors [of this data time partial e]
    by (cases "parseMedia_traversal this data time partial";
        cases "snd (parseMedia_traversal this data time partial)")
       (auto simp: parseMediaInternal'_def)
  have first: "fst (parseFirstCue this data time) = Inl e \<longleftrightarrow>
        fst (parseMediaInternal' this data time True) = Inl e"
    by (cases "parseMediaInternal' this data time True";
        cases "fst (parseMediaInternal' this data time True)")
       (auto simp: parseFirstCue_def)
  have full: "fst (parseMedia this data time) = Inl e \<longleftrightarrow>
        fst (parseMediaInternal' this data time False) = Inl e"
    by (simp add: parseMedia_def)
  have errors: "snd (parseInit_traversal data) = Throw e
        \<or> snd (parseMedia_traversal this data time partial) = Throw e
      \<longrightarrow> e = TruncatedInput \<or> e = MalformedBox"
    using parseInit_traversal_cases [of data] parseMedia_traversal_errors [of this data time partial e]
    by auto
  from init media first full errors show ?thesis
    by blast
qed

theorem traversal_errors_propagate_witness:
  "parseInit truncated = Inl TruncatedInput
   \<and> parseInit overlong = Inl MalformedBox
   \<and> fst (parseMedia stubMp4TtmlParser truncated 7) = Inl TruncatedInput
   \<and> fst (parseMedia stubMp4TtmlParser overlong 7) = Inl MalformedBox"
proof -
  have i1: "snd (parseInit_traversal truncated) = Throw TruncatedInput"
    by (simp add: parseInit_traversal_def parse_def parseBoxes_truncated)
  have i2: "snd (parseInit_traversal overlong) = Throw MalformedBox"
    by (simp add: parseInit_traversal_def parse_def parseBoxes_overlong)
  have m1: "snd (parseMedia_traversal stubMp4TtmlParser truncated 7 False) = Throw TruncatedInput"
    by (simp add: parseMedia_traversal_def parse_def parseBoxes_truncated)
  have m2: "snd (parseMedia_traversal stubMp4TtmlParser overlong 7 False) = Throw MalformedBox"
    by (simp add: parseMedia_traversal_def parse_def parseBoxes_overlong)
  show ?thesis
    using i1 i2 m1 m2
      traversal_errors_propagate [of truncated TruncatedInput stubMp4TtmlParser 7 False]
      traversal_errors_propagate [of overlong MalformedBox stubMp4TtmlParser 7 False]
    by simp
qed

text \<open>
  Claim C7, as the code has it. \<open>parseInit\<close> registers a handler for one sample entry
  type, \<^verbatim>\<open>stpp\<close>, and its result depends on the dispatch on that tag. It succeeds on
  every container that declares an \<^verbatim>\<open>stpp\<close> entry under the chain
  \<^verbatim>\<open>moov > trak > mdia > minf > stbl > stsd\<close>, whatever the entry holds and whatever
  boxes are around the boxes of the chain; on a container in which there is no \<^verbatim>\<open>stpp\<close>
  box, whatever the types of the entries it declares, it throws \<^verbatim>\<open>INVALID_MP4_TTML\<close>.
  The two \<^verbatim>\<open>codecs\<close> values, \<^verbatim>\<open>stpp\<close> and \<^verbatim>\<open>stpp.TTML.im1t\<close>, are two different MIME types
  under which the one class \<open>Mp4TtmlParser\<close>, with this one \<open>parseInit\<close>, is registered.
\<close>

theorem parseInit_accepts_stpp:
  "(declares [''moov'', ''trak'', ''mdia'', ''minf'', ''stbl'', ''stsd''] ''stpp'' data
      \<longrightarrow> parseInit data = Inr ())
   \<and> (noSubtitle data \<longrightarrow> parseInit data = Inl (Error CRITICAL TEXT INVALID_MP4_TTML))
   \<and> mimeType_stpp \<noteq> mimeType_stpp_TTML_im1t
   \<and> registered mimeType_stpp = Some Mp4TtmlParser_class
   \<and> registered mimeType_stpp_TTML_im1t = Some Mp4TtmlParser_class"
  using declares_accepted [of _ data] noSubtitle_rejected [of data]
  by (simp add: registered_lookup) (simp add: mimeType_stpp_def mimeType_stpp_TTML_im1t_def)

text \<open>
  A segment with boxes around the chain, once with an \<^verbatim>\<open>stpp\<close> entry and once with a
  \<^verbatim>\<open>wvtt\<close> entry.
\<close>

theorem parseInit_accepts_stpp_witness:
  "declares [''moov'', ''trak'', ''mdia'', ''minf'', ''stbl'', ''stsd''] ''stpp''
     (textSegment ''stpp'' [1, 2])
   \<and> parseInit (textSegment ''stpp'' [1, 2]) = Inr ()
   \<and> noSubtitle (textSegment ''wvtt'' [1, 2])
   \<and> parseInit (textSegment ''wvtt'' [1, 2]) = Inl (Error CRITICAL TEXT INVALID_MP4_TTML)"
proof -
  have d: "declares [''moov'', ''trak'', ''mdia'', ''minf'', ''stbl'', ''stsd''] ''stpp''
     (textSegment ''stpp'' [1, 2])"
    by (rule declares_textSegment) simp_all
  have n: "noSubtitle (textSegment ''wvtt'' [1, 2])"
    by (rule noSubtitle_textSegment) (simp_all add: otherBox_around)
  from d n parseInit_accepts_stpp [of "textSegment ''stpp'' [1, 2]"]
    parseInit_accepts_stpp [of "textSegment ''wvtt'' [1, 2]"]
  show ?thesis
    by blast
qed

text \<open>
  There is no second tag. The minimal segment is turned down when its entry has one of
  the other four-character parts of the second \<^verbatim>\<open>codecs\<close> value as its tag, and no tag
  other than \<^verbatim>\<open>stpp\<close> makes \<open>parseInit\<close> succeed on it.
\<close>

theorem parseInit_second_tag_counterexample:
  "parseInit (initSegment ''im1t'' [1, 2]) = Inl (Error CRITICAL TEXT INVALID_MP4_TTML)
   \<and> parseInit (initSegment ''TTML'' [1, 2]) = Inl (Error CRITICAL TEXT INVALID_MP4_TTML)
   \<and> parseInit (initSegment ''stpp'' [1, 2]) = Inr ()
   \<and> \<not> (\<exists>tag. length tag = 4 \<and> tag \<noteq> ''stpp'' \<and> parseInit (initSegment tag []) = Inr ())"
proof -
  have a: "parseInit_traversal (initSegment ''im1t'' [1, 2]) = (False, Continue)"
    unfolding parseInit_traversal_def
    by (rule parse_initSegment_other)
       (simp_all add: parseInit_parser_def box_def fullBox_def Mp4Parser_new_def typeFromString_def)
  have b: "parseInit_traversal (initSegment ''TTML'' [1, 2]) = (False, Continue)"
    unfolding parseInit_traversal_def
    by (rule parse_initSegment_other)
       (simp_all add: parseInit_parser_def box_def fullBox_def Mp4Parser_new_def typeFromString_def)
  have c: "parseInit_traversal (initSegment ''stpp'' [1, 2]) = (True, Stop)"
    unfolding parseInit_traversal_def by (rule parse_initSegment_stpp) simp
  have d: "\<not> (\<exists>tag. length tag = 4 \<and> tag \<noteq> ''stpp'' \<and> parseInit (initSegment tag []) = Inr ())"
    using parseInit_initSegment_other_tag by blast
  from a b c d show ?thesis
    by (simp add: parseInit_cases)
qed

end
